theory Spec2Isabelle
  imports Main
begin


section \<open>Delta elements\<close>

text \<open>An element of a delta: a variable with the bounds the neighbor gives it.
  \<open>Bound\<close> and \<open>Value\<close> are the accessors of the solver's \<open>IntVarElement\<close>.\<close>

record IntVarElement =
  Var :: nat
  Min_e :: int
  Max_e :: int

definition Bound :: "IntVarElement \<Rightarrow> bool" where
  "Bound e = (Min_e e = Max_e e)"

definition Value_e :: "IntVarElement \<Rightarrow> int" where
  "Value_e e = Min_e e"

section \<open>MaxActiveVehiclesFilter\<close>

text \<open>The accessors of the routing model the filter reads.\<close>

record RoutingModel =
  vehicles :: nat
  Start :: "nat \<Rightarrow> nat"
  End :: "nat \<Rightarrow> nat"
  IsStart :: "nat \<Rightarrow> bool"
  VehicleIndex :: "nat \<Rightarrow> nat"
  GetMaximumNumberOfActiveVehicles :: int

record MaxActiveVehiclesFilter =
  is_active :: "bool list"
  active_vehicles :: int

text \<open>The loop of \<open>MaxActiveVehiclesFilter::Accept\<close> over the elements of the delta;
  \<open>cur\<close> is \<open>current_active_vehicles\<close>.\<close>

fun MaxActiveVehicles_Accept_loop ::
  "RoutingModel \<Rightarrow> (nat \<Rightarrow> nat option) \<Rightarrow> bool list \<Rightarrow> IntVarElement list \<Rightarrow> int \<Rightarrow> bool" where
  "MaxActiveVehicles_Accept_loop m FindIndex act [] cur =
     (cur \<le> GetMaximumNumberOfActiveVehicles m)"
| "MaxActiveVehicles_Accept_loop m FindIndex act (e # es) cur =
     (case FindIndex (Var e) of
        None \<Rightarrow> MaxActiveVehicles_Accept_loop m FindIndex act es cur
      | Some index \<Rightarrow>
          if IsStart m index then
            if Min_e e \<noteq> Max_e e then True
            else
              let vehicle = VehicleIndex m index;
                  active = (Min_e e \<noteq> int (End m vehicle))
              in if active \<and> \<not> act ! vehicle
                 then MaxActiveVehicles_Accept_loop m FindIndex act es (cur + 1)
                 else if \<not> active \<and> act ! vehicle
                 then MaxActiveVehicles_Accept_loop m FindIndex act es (cur - 1)
                 else MaxActiveVehicles_Accept_loop m FindIndex act es cur
          else MaxActiveVehicles_Accept_loop m FindIndex act es cur)"

definition MaxActiveVehicles_Accept ::
  "RoutingModel \<Rightarrow> (nat \<Rightarrow> nat option) \<Rightarrow> MaxActiveVehiclesFilter \<Rightarrow> IntVarElement list \<Rightarrow> bool" where
  "MaxActiveVehicles_Accept m FindIndex f delta =
     MaxActiveVehicles_Accept_loop m FindIndex (is_active f) delta (active_vehicles f)"

text \<open>\<open>OnSynchronize\<close>: one step of the loop over the vehicles, and the loop.\<close>

definition MaxActiveVehicles_sync_step ::
  "RoutingModel \<Rightarrow> (nat \<Rightarrow> bool) \<Rightarrow> (nat \<Rightarrow> int) \<Rightarrow> nat \<Rightarrow> MaxActiveVehiclesFilter \<Rightarrow> MaxActiveVehiclesFilter" where
  "MaxActiveVehicles_sync_step m IsVarSynced Value i f =
     (let index = Start m i in
      if IsVarSynced index \<and> Value index \<noteq> int (End m i)
      then f\<lparr>is_active := (is_active f)[i := True], active_vehicles := active_vehicles f + 1\<rparr>
      else f\<lparr>is_active := (is_active f)[i := False]\<rparr>)"

definition MaxActiveVehicles_OnSynchronize ::
  "RoutingModel \<Rightarrow> (nat \<Rightarrow> bool) \<Rightarrow> (nat \<Rightarrow> int) \<Rightarrow> MaxActiveVehiclesFilter \<Rightarrow> MaxActiveVehiclesFilter" where
  "MaxActiveVehicles_OnSynchronize m IsVarSynced Value f =
     foldl (\<lambda>g i. MaxActiveVehicles_sync_step m IsVarSynced Value i g)
       (f\<lparr>active_vehicles := 0\<rparr>) [0..<vehicles m]"

text \<open>The specification's count: the proposed next of a vehicle's start is the value the
  delta gives it, and otherwise the synchronized value; the vehicle is active when that next
  is known and is not the vehicle's end.\<close>

definition proposed_next ::
  "RoutingModel \<Rightarrow> (nat \<Rightarrow> nat option) \<Rightarrow> (nat \<Rightarrow> bool) \<Rightarrow> (nat \<Rightarrow> int) \<Rightarrow> IntVarElement list \<Rightarrow> nat \<Rightarrow> int option" where
  "proposed_next m FindIndex IsVarSynced Value delta v =
     (case find (\<lambda>e. FindIndex (Var e) = Some (Start m v)) delta of
        Some e \<Rightarrow> Some (Min_e e)
      | None \<Rightarrow> if IsVarSynced (Start m v) then Some (Value (Start m v)) else None)"

definition proposed_active_count ::
  "RoutingModel \<Rightarrow> (nat \<Rightarrow> nat option) \<Rightarrow> (nat \<Rightarrow> bool) \<Rightarrow> (nat \<Rightarrow> int) \<Rightarrow> IntVarElement list \<Rightarrow> int" where
  "proposed_active_count m FindIndex IsVarSynced Value delta =
     int (length (filter
       (\<lambda>v. case proposed_next m FindIndex IsVarSynced Value delta v of
               None \<Rightarrow> False | Some n \<Rightarrow> n \<noteq> int (End m v))
       [0..<vehicles m]))"

text \<open>A well-formed model: the starts of the vehicles are exactly the indices \<open>IsStart\<close>
  accepts, and \<open>VehicleIndex\<close> inverts \<open>Start\<close>.\<close>

definition wf_model :: "RoutingModel \<Rightarrow> bool" where
  "wf_model m =
     ((\<forall>v < vehicles m. IsStart m (Start m v) \<and> VehicleIndex m (Start m v) = v) \<and>
      (\<forall>i. IsStart m i \<longrightarrow> VehicleIndex m i < vehicles m \<and> Start m (VehicleIndex m i) = i))"

text \<open>The elements of the delta on start variables are bound, and no two of them are on the
  same start.\<close>

definition start_elements_bound ::
  "RoutingModel \<Rightarrow> (nat \<Rightarrow> nat option) \<Rightarrow> IntVarElement list \<Rightarrow> bool" where
  "start_elements_bound m FindIndex delta =
     (\<forall>e \<in> set delta. \<forall>i. FindIndex (Var e) = Some i \<and> IsStart m i \<longrightarrow> Bound e)"

definition start_indices :: "RoutingModel \<Rightarrow> (nat \<Rightarrow> nat option) \<Rightarrow> IntVarElement list \<Rightarrow> nat list" where
  "start_indices m FindIndex delta =
     filter (IsStart m) (List.map_filter (\<lambda>e. FindIndex (Var e)) delta)"

subsection \<open>Proofs\<close>

text \<open>What one element adds to the count.\<close>

definition contribution :: "RoutingModel \<Rightarrow> (nat \<Rightarrow> nat option) \<Rightarrow> bool list \<Rightarrow> IntVarElement \<Rightarrow> int" where
  "contribution m FindIndex act e =
     (case FindIndex (Var e) of
        None \<Rightarrow> 0
      | Some index \<Rightarrow>
          if IsStart m index then
            let vehicle = VehicleIndex m index;
                active = (Min_e e \<noteq> int (End m vehicle))
            in if active \<and> \<not> act ! vehicle then 1
               else if \<not> active \<and> act ! vehicle then - 1 else 0
          else 0)"

lemma Accept_loop_step:
  "(\<forall>i. FindIndex (Var e) = Some i \<and> IsStart m i \<longrightarrow> Bound e) \<Longrightarrow>
   MaxActiveVehicles_Accept_loop m FindIndex act (e # es) cur =
     MaxActiveVehicles_Accept_loop m FindIndex act es (cur + contribution m FindIndex act e)"
  by (auto simp: contribution_def Let_def Bound_def split: option.split)

lemma Accept_loop_sum:
  "start_elements_bound m FindIndex delta \<Longrightarrow>
   MaxActiveVehicles_Accept_loop m FindIndex act delta cur =
     (cur + sum_list (map (contribution m FindIndex act) delta)
        \<le> GetMaximumNumberOfActiveVehicles m)"
proof (induction delta arbitrary: cur)
  case Nil
  then show ?case by simp
next
  case (Cons e es)
  have rest: "start_elements_bound m FindIndex es"
    using Cons.prems by (simp add: start_elements_bound_def)
  have here: "\<forall>i. FindIndex (Var e) = Some i \<and> IsStart m i \<longrightarrow> Bound e"
    using Cons.prems by (simp add: start_elements_bound_def)
  have "MaxActiveVehicles_Accept_loop m FindIndex act (e # es) cur =
      MaxActiveVehicles_Accept_loop m FindIndex act es (cur + contribution m FindIndex act e)"
    using here by (rule Accept_loop_step)
  also have "\<dots> = (cur + contribution m FindIndex act e
      + sum_list (map (contribution m FindIndex act) es) \<le> GetMaximumNumberOfActiveVehicles m)"
    by (rule Cons.IH[OF rest])
  finally show ?case by (simp add: add.assoc)
qed


text \<open>The activity of vehicle \<open>v\<close> in the neighbor, from the synchronized flags.\<close>

definition proposed_active ::
  "RoutingModel \<Rightarrow> (nat \<Rightarrow> nat option) \<Rightarrow> bool list \<Rightarrow> IntVarElement list \<Rightarrow> nat \<Rightarrow> bool" where
  "proposed_active m FindIndex act delta v =
     (case find (\<lambda>e. FindIndex (Var e) = Some (Start m v)) delta of
        Some e \<Rightarrow> Min_e e \<noteq> int (End m v)
      | None \<Rightarrow> act ! v)"

lemma count_change:
  "w < n \<Longrightarrow> (\<forall>v < n. v \<noteq> w \<longrightarrow> P v = Q v) \<Longrightarrow>
   int (length (filter P [0..<n])) =
     int (length (filter Q [0..<n])) + (if P w then 1 else 0) - (if Q w then 1 else 0)"
proof (induction n)
  case 0
  then show ?case by simp
next
  case (Suc n)
  show ?case
  proof (cases "w = n")
    case True
    have "filter P [0..<n] = filter Q [0..<n]"
      using Suc.prems True by (intro filter_cong) auto
    then show ?thesis using True by simp
  next
    case False
    then have "w < n" using Suc.prems by simp
    moreover have "\<forall>v < n. v \<noteq> w \<longrightarrow> P v = Q v" using Suc.prems by simp
    ultimately have IH: "int (length (filter P [0..<n])) =
      int (length (filter Q [0..<n])) + (if P w then 1 else 0) - (if Q w then 1 else 0)"
      by (rule Suc.IH)
    have "P n = Q n" using Suc.prems False by simp
    then show ?thesis using IH by simp
  qed
qed

lemma find_start_None:
  assumes "i \<notin> set (start_indices m FindIndex es)" "IsStart m i"
  shows "find (\<lambda>e. FindIndex (Var e) = Some i) es = None"
  using assms
  by (induction es) (auto simp: start_indices_def List.map_filter_simps split: option.splits)

lemma contribution_sum:
  assumes wf: "wf_model m" and len: "length act = vehicles m"
  shows "distinct (start_indices m FindIndex delta) \<Longrightarrow>
    sum_list (map (contribution m FindIndex act) delta) =
      int (length (filter (proposed_active m FindIndex act delta) [0..<vehicles m]))
      - int (length (filter (\<lambda>v. act ! v) [0..<vehicles m]))"
proof (induction delta)
  case Nil
  then show ?case by (simp add: proposed_active_def)
next
  case (Cons e es)
  have dist: "distinct (start_indices m FindIndex es)"
    using Cons.prems by (auto simp: start_indices_def List.map_filter_simps split: option.splits if_splits)
  note IH = Cons.IH[OF dist]
  show ?case
  proof (cases "\<exists>i. FindIndex (Var e) = Some i \<and> IsStart m i")
    case False
    have "\<forall>v < vehicles m. FindIndex (Var e) \<noteq> Some (Start m v)"
      using False wf by (auto simp: wf_model_def)
    then have "filter (proposed_active m FindIndex act (e # es)) [0..<vehicles m] =
        filter (proposed_active m FindIndex act es) [0..<vehicles m]"
      by (intro filter_cong) (auto simp: proposed_active_def)
    moreover have "contribution m FindIndex act e = 0"
      using False by (auto simp: contribution_def split: option.splits)
    ultimately show ?thesis using IH by simp
  next
    case True
    then obtain i where i: "FindIndex (Var e) = Some i" "IsStart m i" by blast
    define w where "w = VehicleIndex m i"
    have w: "w < vehicles m" "Start m w = i"
      using wf i by (auto simp: wf_model_def w_def)
    have "i \<notin> set (start_indices m FindIndex es)"
      using Cons.prems i by (auto simp: start_indices_def List.map_filter_simps)
    then have none: "find (\<lambda>e. FindIndex (Var e) = Some i) es = None"
      using i(2) by (rule find_start_None)
    have other: "\<forall>v < vehicles m. v \<noteq> w \<longrightarrow>
        proposed_active m FindIndex act (e # es) v = proposed_active m FindIndex act es v"
    proof (intro allI impI)
      fix v assume v: "v < vehicles m" "v \<noteq> w"
      have "Start m v \<noteq> i"
      proof
        assume "Start m v = i"
        then have "VehicleIndex m i = v" using wf v by (auto simp: wf_model_def)
        then show False using v by (simp add: w_def)
      qed
      then show "proposed_active m FindIndex act (e # es) v = proposed_active m FindIndex act es v"
        using i by (simp add: proposed_active_def)
    qed
    have at_w: "proposed_active m FindIndex act (e # es) w = (Min_e e \<noteq> int (End m w))"
      using i w by (simp add: proposed_active_def)
    have old_w: "proposed_active m FindIndex act es w = act ! w"
      using none w by (simp add: proposed_active_def)
    have contrib: "contribution m FindIndex act e =
        (if Min_e e \<noteq> int (End m w) then 1 else 0) - (if act ! w then 1 else 0)"
      using i by (simp add: contribution_def w_def Let_def)
    have "int (length (filter (proposed_active m FindIndex act (e # es)) [0..<vehicles m])) =
        int (length (filter (proposed_active m FindIndex act es) [0..<vehicles m]))
        + (if proposed_active m FindIndex act (e # es) w then 1 else 0)
        - (if proposed_active m FindIndex act es w then 1 else 0)"
      using w(1) other by (rule count_change)
    then show ?thesis using IH contrib at_w old_w by simp
  qed
qed

lemma sync_foldl:
  "n \<le> length (is_active f) \<Longrightarrow>
   foldl (\<lambda>g i. MaxActiveVehicles_sync_step m IsVarSynced Value i g)
       (f\<lparr>active_vehicles := 0\<rparr>) [0..<n] =
     f\<lparr>is_active :=
          map (\<lambda>i. IsVarSynced (Start m i) \<and> Value (Start m i) \<noteq> int (End m i)) [0..<n]
          @ drop n (is_active f),
        active_vehicles :=
          int (length (filter (\<lambda>i. IsVarSynced (Start m i) \<and> Value (Start m i) \<noteq> int (End m i))
            [0..<n]))\<rparr>"
proof (induction n)
  case 0
  then show ?case by simp
next
  case (Suc n)
  then have n: "n < length (is_active f)" by simp
  have upd: "\<And>xs b. length xs = n \<Longrightarrow> (xs @ drop n (is_active f))[n := b]
      = xs @ b # drop (Suc n) (is_active f)"
    using n by (simp add: list_update_append Cons_nth_drop_Suc[symmetric] upd_conv_take_nth_drop)
  show ?case
    using Suc.IH n
    by (simp add: MaxActiveVehicles_sync_step_def Let_def upd)
qed

lemma OnSynchronize_result:
  assumes "length (is_active f) = vehicles m"
  shows "is_active (MaxActiveVehicles_OnSynchronize m IsVarSynced Value f) =
      map (\<lambda>i. IsVarSynced (Start m i) \<and> Value (Start m i) \<noteq> int (End m i)) [0..<vehicles m]"
    and "active_vehicles (MaxActiveVehicles_OnSynchronize m IsVarSynced Value f) =
      int (length (filter (\<lambda>i. IsVarSynced (Start m i) \<and> Value (Start m i) \<noteq> int (End m i))
            [0..<vehicles m]))"
  using assms by (simp_all add: MaxActiveVehicles_OnSynchronize_def sync_foldl)


text \<open>Scenario S1 of the specification: three regular nodes 0..2, three vehicles with starts
  3..5 and ends 6..8, at most two active vehicles. Vehicles 0 and 1 are active in the
  synchronized assignment and vehicle 2 is empty.\<close>

definition S1_model :: RoutingModel where
  "S1_model = \<lparr>vehicles = 3, Start = (\<lambda>v. 3 + v), End = (\<lambda>v. 6 + v),
     IsStart = (\<lambda>i. 3 \<le> i \<and> i < 6), VehicleIndex = (\<lambda>i. i - 3),
     GetMaximumNumberOfActiveVehicles = 2\<rparr>"

definition S1_FindIndex :: "nat \<Rightarrow> nat option" where
  "S1_FindIndex v = (if v < 6 then Some v else None)"

definition S1_Value :: "nat \<Rightarrow> int" where
  "S1_Value i = (if i = 3 then 0 else if i = 4 then 1 else if i = 5 then 8
                 else if i = 0 then 6 else if i = 1 then 7 else int i)"

definition S1_filter0 :: MaxActiveVehiclesFilter where
  "S1_filter0 = \<lparr>is_active = [False, False, False], active_vehicles = 0\<rparr>"

definition S1_delta :: "IntVarElement list" where
  "S1_delta = [\<lparr>Var = 5, Min_e = 2, Max_e = 2\<rparr>, \<lparr>Var = 2, Min_e = 8, Max_e = 8\<rparr>]"

definition S1_delta_lns :: "IntVarElement list" where
  "S1_delta_lns = [\<lparr>Var = 5, Min_e = 2, Max_e = 2\<rparr>, \<lparr>Var = 3, Min_e = 0, Max_e = 1\<rparr>]"

lemma S1_wf: "wf_model S1_model"
  by (auto simp: wf_model_def S1_model_def)

lemma S1_bound: "start_elements_bound S1_model S1_FindIndex S1_delta"
  by (simp add: start_elements_bound_def S1_delta_def Bound_def)

lemma S1_distinct: "distinct (start_indices S1_model S1_FindIndex S1_delta)"
  by (simp add: start_indices_def S1_delta_def S1_FindIndex_def S1_model_def
      List.map_filter_simps)

lemma S1_count:
  "proposed_active_count S1_model S1_FindIndex (\<lambda>i. True) S1_Value S1_delta = 3"
  by (simp add: proposed_active_count_def proposed_next_def S1_model_def S1_FindIndex_def
      S1_Value_def S1_delta_def upt_rec)

text \<open>C9 (amended). After \<open>OnSynchronize\<close>, for a delta whose elements on start variables are
  bound and are on distinct starts, \<open>Accept\<close> returns true if and only if the number of
  vehicles whose start's proposed next is not the vehicle's end is at most the configured
  maximum.\<close>

theorem MaxActiveVehicles_Accept_iff_count:
  assumes wf: "wf_model m"
    and len: "length (is_active f) = vehicles m"
    and bound: "start_elements_bound m FindIndex delta"
    and dist: "distinct (start_indices m FindIndex delta)"
  shows "MaxActiveVehicles_Accept m FindIndex
           (MaxActiveVehicles_OnSynchronize m IsVarSynced Value f) delta =
         (proposed_active_count m FindIndex IsVarSynced Value delta
            \<le> GetMaximumNumberOfActiveVehicles m)"
proof -
  define g where "g = (\<lambda>i. IsVarSynced (Start m i) \<and> Value (Start m i) \<noteq> int (End m i))"
  define act where "act = map g [0..<vehicles m]"
  have act: "is_active (MaxActiveVehicles_OnSynchronize m IsVarSynced Value f) = act"
    and cnt: "active_vehicles (MaxActiveVehicles_OnSynchronize m IsVarSynced Value f) =
      int (length (filter g [0..<vehicles m]))"
    using OnSynchronize_result[OF len] by (simp_all add: act_def g_def)
  have lact: "length act = vehicles m" by (simp add: act_def)
  have same: "filter (\<lambda>v. act ! v) [0..<vehicles m] = filter g [0..<vehicles m]"
    by (intro filter_cong) (auto simp: act_def)
  have spec: "filter (proposed_active m FindIndex act delta) [0..<vehicles m] =
      filter (\<lambda>v. case proposed_next m FindIndex IsVarSynced Value delta v of
               None \<Rightarrow> False | Some n \<Rightarrow> n \<noteq> int (End m v)) [0..<vehicles m]"
    by (intro filter_cong)
       (auto simp: proposed_active_def proposed_next_def act_def g_def split: option.splits)
  have "MaxActiveVehicles_Accept m FindIndex
           (MaxActiveVehicles_OnSynchronize m IsVarSynced Value f) delta =
        (int (length (filter g [0..<vehicles m]))
          + sum_list (map (contribution m FindIndex act) delta)
          \<le> GetMaximumNumberOfActiveVehicles m)"
    unfolding MaxActiveVehicles_Accept_def act cnt by (rule Accept_loop_sum[OF bound])
  also have "sum_list (map (contribution m FindIndex act) delta) =
      int (length (filter (proposed_active m FindIndex act delta) [0..<vehicles m]))
      - int (length (filter (\<lambda>v. act ! v) [0..<vehicles m]))"
    by (rule contribution_sum[OF wf lact dist])
  finally show ?thesis
    by (simp add: same spec proposed_active_count_def)
qed

theorem MaxActiveVehicles_S1_witness:
  "wf_model S1_model \<and> length (is_active S1_filter0) = vehicles S1_model \<and>
   start_elements_bound S1_model S1_FindIndex S1_delta \<and>
   distinct (start_indices S1_model S1_FindIndex S1_delta) \<and>
   proposed_active_count S1_model S1_FindIndex (\<lambda>i. True) S1_Value S1_delta = 3 \<and>
   GetMaximumNumberOfActiveVehicles S1_model = 2 \<and>
   \<not> MaxActiveVehicles_Accept S1_model S1_FindIndex
        (MaxActiveVehicles_OnSynchronize S1_model (\<lambda>i. True) S1_Value S1_filter0) S1_delta"
proof -
  have len: "length (is_active S1_filter0) = vehicles S1_model"
    by (simp add: S1_filter0_def S1_model_def)
  have cap: "GetMaximumNumberOfActiveVehicles S1_model = 2"
    by (simp add: S1_model_def)
  show ?thesis
    using MaxActiveVehicles_Accept_iff_count[OF S1_wf len S1_bound S1_distinct,
        of "\<lambda>i. True" S1_Value]
      S1_wf len S1_bound S1_distinct S1_count cap
    by simp
qed

text \<open>The claim as stated fails when an element on a start variable is not bound: the
  count adjusted by the bound elements is 3, above the maximum 2, and \<open>Accept\<close> returns
  true.\<close>

theorem MaxActiveVehicles_lns_counterexample:
  "MaxActiveVehicles_Accept S1_model S1_FindIndex
     (MaxActiveVehicles_OnSynchronize S1_model (\<lambda>i. True) S1_Value S1_filter0) S1_delta_lns
   \<and> proposed_active_count S1_model S1_FindIndex (\<lambda>i. True) S1_Value
        (filter Bound S1_delta_lns) = 3
   \<and> GetMaximumNumberOfActiveVehicles S1_model = 2"
  by (simp add: MaxActiveVehicles_Accept_def MaxActiveVehicles_OnSynchronize_def
      MaxActiveVehicles_sync_step_def proposed_active_count_def proposed_next_def
      S1_model_def S1_FindIndex_def S1_Value_def S1_filter0_def S1_delta_lns_def
      Bound_def upt_rec)

text \<open>Whatever the count, \<open>Accept\<close> returns true on a delta with an element on a start
  variable that is not bound.\<close>

lemma MaxActiveVehicles_Accept_loop_unbound_start:
  assumes "list_ex (\<lambda>e. case FindIndex (Var e) of
                          None \<Rightarrow> False
                        | Some index \<Rightarrow> IsStart m index \<and> \<not> Bound e) delta"
  shows "MaxActiveVehicles_Accept_loop m FindIndex act delta cur"
  using assms
proof (induction delta arbitrary: cur)
  case Nil
  then show ?case by simp
next
  case (Cons e es)
  show ?case
  proof (cases "case FindIndex (Var e) of
                  None \<Rightarrow> False
                | Some index \<Rightarrow> IsStart m index \<and> \<not> Bound e")
    case True
    then show ?thesis by (auto simp: Bound_def split: option.splits)
  next
    case False
    then have "list_ex (\<lambda>e. case FindIndex (Var e) of
                          None \<Rightarrow> False
                        | Some index \<Rightarrow> IsStart m index \<and> \<not> Bound e) es"
      using Cons.prems by simp
    then have "MaxActiveVehicles_Accept_loop m FindIndex act es c" for c
      by (rule Cons.IH)
    then show ?thesis by (simp add: Let_def split: option.split)
  qed
qed

lemma MaxActiveVehicles_Accept_unbound_start:
  assumes "list_ex (\<lambda>e. case FindIndex (Var e) of
                          None \<Rightarrow> False
                        | Some index \<Rightarrow> IsStart m index \<and> \<not> Bound e) delta"
  shows "MaxActiveVehicles_Accept m FindIndex f delta"
  unfolding MaxActiveVehicles_Accept_def
  using assms by (rule MaxActiveVehicles_Accept_loop_unbound_start)


section \<open>PathState\<close>

type_synonym ChainBounds = "nat \<times> nat"
type_synonym PathBounds = "nat \<times> nat"

record PathState =
  num_nodes :: nat
  num_paths :: nat
  num_nodes_threshold :: nat
  path_start_end :: "(nat \<times> nat) list"
  committed_nodes :: "nat list"
  committed_index :: "int list"
  committed_paths :: "int list"
  chains :: "ChainBounds list"
  paths :: "PathBounds list"
  changed_paths :: "nat list"
  changed_loops :: "nat list"
  is_invalid :: bool

text \<open>The nodes of \<open>committed_nodes\<close> at the indices of a chain, a half-open range.\<close>

definition slice :: "'a list \<Rightarrow> ChainBounds \<Rightarrow> 'a list" where
  "slice xs c = take (snd c - fst c) (drop (fst c) xs)"

text \<open>The constructor: every path goes from its start to its end directly, every other node
  is a loop.\<close>

definition init_path :: "nat \<Rightarrow> PathState \<Rightarrow> PathState" where
  "init_path path s =
     (let index = 2 * path;
          start = fst (path_start_end s ! path);
          end = snd (path_start_end s ! path)
      in s\<lparr>committed_index := (committed_index s)[start := int index, end := int index + 1],
           committed_nodes := (committed_nodes s)[index := start, index + 1 := end],
           committed_paths := (committed_paths s)[start := int path, end := int path],
           chains := (chains s)[path := (index, index + 2)],
           paths := (paths s)[path := (path, path + 1)]\<rparr>)"

definition init_loop :: "nat \<Rightarrow> PathState \<Rightarrow> PathState" where
  "init_loop node s =
     (if committed_index s ! node \<noteq> - 1 then s
      else s\<lparr>committed_index := (committed_index s)[node := int (length (committed_nodes s))],
             committed_nodes := committed_nodes s @ [node]\<rparr>)"

definition PathState_init :: "nat \<Rightarrow> nat list \<Rightarrow> nat list \<Rightarrow> PathState" where
  "PathState_init n path_start path_end =
     (let np = length path_start;
          s0 = \<lparr>num_nodes = n, num_paths = np, num_nodes_threshold = max 16 (4 * n),
                path_start_end = zip path_start path_end,
                committed_nodes = replicate (2 * np) 0,
                committed_index = replicate n (- 1),
                committed_paths = replicate n (- 1),
                chains = replicate (np + 1) (0, 0),
                paths = replicate np (0, 0),
                changed_paths = [], changed_loops = [], is_invalid = False\<rparr>;
          s1 = fold init_path [0..<np] s0;
          s2 = s1\<lparr>chains := (chains s1)[np := (0, 0)]\<rparr>
      in fold init_loop [0..<n] s2)"

text \<open>\<open>Chains(path)\<close> and \<open>Nodes(path)\<close> build the ranges over the chains of \<open>chains\<close> between
  the bounds \<open>paths[path]\<close>. The range classes are declared in the header of the class, which
  is not among the sources; the model gives what a range iterates over: the list of the
  chains, and the concatenation of their node slices.\<close>

definition Chains :: "PathState \<Rightarrow> nat \<Rightarrow> ChainBounds list" where
  "Chains s path = map (\<lambda>i. chains s ! i) [fst (paths s ! path)..<snd (paths s ! path)]"

definition Nodes :: "PathState \<Rightarrow> nat \<Rightarrow> nat list" where
  "Nodes s path = concat (map (slice (committed_nodes s)) (Chains s path))"

text \<open>Modelled from the spec: the queries \<open>Path\<close>, \<open>CommittedIndex\<close>, \<open>ChangedPaths\<close>,
  \<open>ChangedLoops\<close>, \<open>IsInvalid\<close>, \<open>Start\<close>, \<open>End\<close> and the mutator \<open>SetInvalid\<close> are declared in
  the header of the class, which is not among the sources.\<close>

definition Path :: "PathState \<Rightarrow> nat \<Rightarrow> int" where
  "Path s node = committed_paths s ! node"

definition CommittedIndex :: "PathState \<Rightarrow> nat \<Rightarrow> int" where
  "CommittedIndex s node = committed_index s ! node"

definition PathStart :: "PathState \<Rightarrow> nat \<Rightarrow> nat" where
  "PathStart s path = fst (path_start_end s ! path)"

definition PathEnd :: "PathState \<Rightarrow> nat \<Rightarrow> nat" where
  "PathEnd s path = snd (path_start_end s ! path)"

definition ChangedPaths :: "PathState \<Rightarrow> nat list" where
  "ChangedPaths s = changed_paths s"

definition ChangedLoops :: "PathState \<Rightarrow> nat list" where
  "ChangedLoops s = changed_loops s"

definition IsInvalid :: "PathState \<Rightarrow> bool" where
  "IsInvalid s = is_invalid s"

definition SetInvalid :: "PathState \<Rightarrow> PathState" where
  "SetInvalid s = s\<lparr>is_invalid := True\<rparr>"

definition ChangePath :: "nat \<Rightarrow> ChainBounds list \<Rightarrow> PathState \<Rightarrow> PathState" where
  "ChangePath path cs s =
     (let path_begin_index = length (chains s);
          path_end_index = length (chains s) + length cs
      in s\<lparr>changed_paths := changed_paths s @ [path],
           chains := chains s @ cs @ [(0, 0)],
           paths := (paths s)[path := (path_begin_index, path_end_index)]\<rparr>)"

definition ChangeLoops :: "nat list \<Rightarrow> PathState \<Rightarrow> PathState" where
  "ChangeLoops new_loops s =
     s\<lparr>changed_loops := changed_loops s @ filter (\<lambda>loop. Path s loop \<noteq> - 1) new_loops\<rparr>"

text \<open>\<open>Revert\<close>. The vector \<open>chains\<close> never has fewer than \<open>num_paths + 1\<close> elements, so
  its \<open>resize\<close> only drops the tail.\<close>

definition reset_paths :: "nat list \<Rightarrow> PathBounds list \<Rightarrow> PathBounds list" where
  "reset_paths cps ps = fold (\<lambda>path ps. ps[path := (path, path + 1)]) cps ps"

definition Revert :: "PathState \<Rightarrow> PathState" where
  "Revert s =
     s\<lparr>is_invalid := False,
       chains := take (num_paths s + 1) (chains s),
       paths := reset_paths (changed_paths s) (paths s),
       changed_paths := [],
       changed_loops := []\<rparr>"

text \<open>\<open>CopyNewPathAtEndOfNodes\<close>: one chain, then all chains of the path.\<close>

definition copy_chain :: "nat \<Rightarrow> nat \<Rightarrow> PathState \<Rightarrow> PathState" where
  "copy_chain path i s =
     (let chain_bounds = chains s ! i;
          s1 = s\<lparr>committed_nodes := committed_nodes s @ slice (committed_nodes s) chain_bounds\<rparr>
      in if committed_paths s1 ! last (committed_nodes s1) = int path then s1
         else s1\<lparr>committed_paths :=
                   fold (\<lambda>j cp. cp[committed_nodes s1 ! j := int path])
                     [fst chain_bounds..<snd chain_bounds] (committed_paths s1)\<rparr>)"

definition CopyNewPathAtEndOfNodes :: "nat \<Rightarrow> PathState \<Rightarrow> PathState" where
  "CopyNewPathAtEndOfNodes path s =
     fold (copy_chain path) [fst (paths s ! path)..<snd (paths s ! path)] s"

definition incremental_copy :: "nat \<Rightarrow> PathState \<Rightarrow> PathState" where
  "incremental_copy path s =
     (let chain_begin = length (committed_nodes s);
          s1 = CopyNewPathAtEndOfNodes path s;
          chain_end = length (committed_nodes s1)
      in s1\<lparr>chains := (chains s1)[path := (chain_begin, chain_end)]\<rparr>)"

definition IncrementalCommit :: "PathState \<Rightarrow> PathState" where
  "IncrementalCommit s =
     (let new_nodes_begin = length (committed_nodes s);
          s1 = fold incremental_copy (ChangedPaths s) s;
          new_nodes_end = length (committed_nodes s1);
          s2 = s1\<lparr>committed_index :=
                 fold (\<lambda>i ci. ci[committed_nodes s1 ! i := int i])
                   [new_nodes_begin..<new_nodes_end] (committed_index s1)\<rparr>;
          s3 = s2\<lparr>committed_paths :=
                 fold (\<lambda>loop cp. cp[loop := - 1]) (ChangedLoops s2) (committed_paths s2)\<rparr>
      in Revert s3)"

definition full_copy :: "nat \<Rightarrow> nat \<Rightarrow> PathState \<Rightarrow> PathState" where
  "full_copy old_num_nodes path s =
     (let new_path_begin = length (committed_nodes s) - old_num_nodes;
          s1 = CopyNewPathAtEndOfNodes path s;
          new_path_end = length (committed_nodes s1) - old_num_nodes
      in s1\<lparr>chains := (chains s1)[path := (new_path_begin, new_path_end)]\<rparr>)"

definition full_loop :: "nat \<Rightarrow> PathState \<Rightarrow> PathState" where
  "full_loop node s =
     (if committed_index s ! node \<noteq> - 1 then s
      else s\<lparr>committed_index := (committed_index s)[node := int (length (committed_nodes s))],
             committed_nodes := committed_nodes s @ [node],
             committed_paths := (committed_paths s)[node := - 1]\<rparr>)"

definition FullCommit :: "PathState \<Rightarrow> PathState" where
  "FullCommit s =
     (let old_num_nodes = length (committed_nodes s);
          s1 = fold (full_copy old_num_nodes) [0..<num_paths s] s;
          s2 = s1\<lparr>committed_nodes := drop old_num_nodes (committed_nodes s1)\<rparr>;
          s3 = s2\<lparr>committed_index :=
                 fold (\<lambda>i ci. ci[committed_nodes s2 ! i := int i])
                   [0..<length (committed_nodes s2)] (replicate (num_nodes s2) (- 1))\<rparr>;
          s4 = fold full_loop [0..<num_nodes s3] s3
      in Revert s4)"

text \<open>\<open>Commit\<close>; its \<open>DCHECK(!IsInvalid())\<close> is compiled out of optimized builds.\<close>

definition Commit :: "PathState \<Rightarrow> PathState" where
  "Commit s =
     (if length (committed_nodes s) < num_nodes_threshold s
      then IncrementalCommit s else FullCommit s)"

text \<open>The tentative changes between two commits.\<close>

datatype change = DoChangePath nat "ChainBounds list" | DoChangeLoops "nat list" | DoSetInvalid

fun apply_change :: "change \<Rightarrow> PathState \<Rightarrow> PathState" where
  "apply_change (DoChangePath path cs) s = ChangePath path cs s"
| "apply_change (DoChangeLoops new_loops) s = ChangeLoops new_loops s"
| "apply_change DoSetInvalid s = SetInvalid s"

fun valid_change :: "PathState \<Rightarrow> change \<Rightarrow> bool" where
  "valid_change s (DoChangePath path cs) = (path < num_paths s)"
| "valid_change s (DoChangeLoops new_loops) = True"
| "valid_change s DoSetInvalid = True"

text \<open>The state as \<open>Revert\<close> leaves it, at the end of both commits and in the constructor:
  one chain per path and the sentinel, every path on its committed chain, no change
  recorded and the state valid.\<close>

definition committed_state :: "PathState \<Rightarrow> bool" where
  "committed_state s =
     (length (chains s) = num_paths s + 1 \<and> length (paths s) = num_paths s \<and>
      paths s = map (\<lambda>p. (p, p + 1)) [0..<num_paths s] \<and>
      changed_paths s = [] \<and> changed_loops s = [] \<and> \<not> is_invalid s)"

subsection \<open>Revert restores the committed state\<close>

lemma length_reset_paths [simp]: "length (reset_paths cps ps) = length ps"
  unfolding reset_paths_def by (induction cps arbitrary: ps) auto

lemma nth_reset_paths:
  "q < length ps \<Longrightarrow>
   reset_paths cps ps ! q = (if q \<in> set cps then (q, q + 1) else ps ! q)"
  unfolding reset_paths_def
proof (induction cps arbitrary: ps)
  case Nil
  then show ?case by simp
next
  case (Cons c cps)
  have "length (ps[c := (c, c + 1)]) = length ps" by simp
  with Cons.prems have q: "q < length (ps[c := (c, c + 1)])" by simp
  show ?case
    using Cons.IH[OF q] Cons.prems by (auto simp: nth_list_update)
qed

text \<open>Between two commits every path is either recorded as changed or on its committed
  chain, and the committed chains and the sentinel are still in front of \<open>chains\<close>.\<close>

definition tentative :: "PathState \<Rightarrow> bool" where
  "tentative s =
     (num_paths s + 1 \<le> length (chains s) \<and> length (paths s) = num_paths s \<and>
      (\<forall>q < num_paths s. q \<in> set (changed_paths s) \<or> paths s ! q = (q, q + 1)))"

lemma committed_tentative: "committed_state s \<Longrightarrow> tentative s"
  by (auto simp: committed_state_def tentative_def)

lemma Revert_committed: "committed_state s \<Longrightarrow> Revert s = s"
  by (cases s) (simp add: Revert_def committed_state_def reset_paths_def)

lemma tentative_apply_change:
  "tentative s \<Longrightarrow> valid_change s c \<Longrightarrow> tentative (apply_change c s)"
  by (cases c)
     (auto simp: tentative_def ChangePath_def ChangeLoops_def SetInvalid_def Let_def
        nth_list_update)

lemma num_paths_apply_change [simp]: "num_paths (apply_change c s) = num_paths s"
  by (cases c) (auto simp: ChangePath_def ChangeLoops_def SetInvalid_def Let_def)

lemma Revert_apply_change:
  assumes "tentative s" "valid_change s c"
  shows "Revert (apply_change c s) = Revert s"
proof (cases c)
  case (DoChangePath path cs)
  have path: "path < length (paths s)" "path < num_paths s"
    using assms DoChangePath by (auto simp: tentative_def)
  have "reset_paths (changed_paths s @ [path])
          ((paths s)[path := (length (chains s), length (chains s) + length cs)])
        = reset_paths (changed_paths s) (paths s)"
  proof (rule nth_equalityI)
    show "length (reset_paths (changed_paths s @ [path])
          ((paths s)[path := (length (chains s), length (chains s) + length cs)]))
        = length (reset_paths (changed_paths s) (paths s))" by simp
  next
    fix q
    assume "q < length (reset_paths (changed_paths s @ [path])
          ((paths s)[path := (length (chains s), length (chains s) + length cs)]))"
    then have q: "q < length (paths s)" by simp
    then have "q < num_paths s" using assms by (simp add: tentative_def)
    then have "q \<in> set (changed_paths s) \<or> paths s ! q = (q, q + 1)"
      using assms by (simp add: tentative_def)
    then show "reset_paths (changed_paths s @ [path])
          ((paths s)[path := (length (chains s), length (chains s) + length cs)]) ! q
        = reset_paths (changed_paths s) (paths s) ! q"
      using q by (auto simp: nth_reset_paths nth_list_update)
  qed
  moreover have "take (Suc (num_paths s)) (chains s @ cs @ [(0, 0)])
      = take (Suc (num_paths s)) (chains s)"
    using assms by (simp add: tentative_def)
  ultimately show ?thesis
    using DoChangePath
    by (simp add: Revert_def ChangePath_def Let_def)
next
  case (DoChangeLoops new_loops)
  then show ?thesis by (simp add: Revert_def ChangeLoops_def)
next
  case DoSetInvalid
  then show ?thesis by (simp add: Revert_def SetInvalid_def)
qed

lemma Revert_apply_changes:
  "tentative s \<Longrightarrow> list_all (valid_change s) cs \<Longrightarrow>
   Revert (fold apply_change cs s) = Revert s"
proof (induction cs arbitrary: s)
  case Nil
  then show ?case by simp
next
  case (Cons c cs)
  have t: "tentative (apply_change c s)"
    using Cons.prems by (simp add: tentative_apply_change)
  have v: "list_all (valid_change (apply_change c s)) cs"
    using Cons.prems by (simp add: list_all_iff) (metis valid_change.simps num_paths_apply_change valid_change.elims(3))
  have "Revert (fold apply_change (c # cs) s) = Revert (apply_change c s)"
    using Cons.IH[OF t v] by simp
  then show ?case using Cons.prems by (simp add: Revert_apply_change)
qed

text \<open>The constructor and both commits end in a committed state.\<close>

lemma Revert_makes_committed:
  assumes "tentative s" "set (changed_paths s) \<subseteq> {..<num_paths s}"
  shows "committed_state (Revert s)"
proof -
  have "reset_paths (changed_paths s) (paths s) = map (\<lambda>p. (p, p + 1)) [0..<num_paths s]"
  proof (rule nth_equalityI)
    show "length (reset_paths (changed_paths s) (paths s))
        = length (map (\<lambda>p. (p, p + 1)) [0..<num_paths s])"
      using assms by (simp add: tentative_def)
  next
    fix q assume "q < length (reset_paths (changed_paths s) (paths s))"
    then have q: "q < length (paths s)" "q < num_paths s"
      using assms by (simp_all add: tentative_def)
    then have "q \<in> set (changed_paths s) \<or> paths s ! q = (q, q + 1)"
      using assms by (simp add: tentative_def)
    then show "reset_paths (changed_paths s) (paths s) ! q
        = map (\<lambda>p. (p, p + 1)) [0..<num_paths s] ! q"
      using q by (auto simp: nth_reset_paths)
  qed
  then show ?thesis
    using assms by (simp add: committed_state_def Revert_def tentative_def)
qed


subsection \<open>The constructor and the commits end in a committed state\<close>

lemma fold_frame:
  assumes "\<And>x s. g (f x s) = g s"
  shows "g (fold f xs s) = g s"
  using assms by (induction xs arbitrary: s) auto

lemma copy_chain_frame [simp]:
  "chains (copy_chain path i s) = chains s"
  "paths (copy_chain path i s) = paths s"
  "changed_paths (copy_chain path i s) = changed_paths s"
  "changed_loops (copy_chain path i s) = changed_loops s"
  "num_paths (copy_chain path i s) = num_paths s"
  "num_nodes (copy_chain path i s) = num_nodes s"
  "committed_index (copy_chain path i s) = committed_index s"
  "committed_nodes (copy_chain path i s) =
     committed_nodes s @ slice (committed_nodes s) (chains s ! i)"
  by (simp_all add: copy_chain_def Let_def)

lemma CopyNewPathAtEndOfNodes_frame [simp]:
  "chains (CopyNewPathAtEndOfNodes path s) = chains s"
  "paths (CopyNewPathAtEndOfNodes path s) = paths s"
  "changed_paths (CopyNewPathAtEndOfNodes path s) = changed_paths s"
  "changed_loops (CopyNewPathAtEndOfNodes path s) = changed_loops s"
  "num_paths (CopyNewPathAtEndOfNodes path s) = num_paths s"
  "num_nodes (CopyNewPathAtEndOfNodes path s) = num_nodes s"
  "committed_index (CopyNewPathAtEndOfNodes path s) = committed_index s"
  unfolding CopyNewPathAtEndOfNodes_def
  by (rule fold_frame, simp)+

lemma incremental_copy_frame [simp]:
  "length (chains (incremental_copy path s)) = length (chains s)"
  "paths (incremental_copy path s) = paths s"
  "changed_paths (incremental_copy path s) = changed_paths s"
  "changed_loops (incremental_copy path s) = changed_loops s"
  "num_paths (incremental_copy path s) = num_paths s"
  "num_nodes (incremental_copy path s) = num_nodes s"
  "committed_index (incremental_copy path s) = committed_index s"
  by (simp_all add: incremental_copy_def Let_def)

lemma full_copy_frame [simp]:
  "length (chains (full_copy n path s)) = length (chains s)"
  "paths (full_copy n path s) = paths s"
  "changed_paths (full_copy n path s) = changed_paths s"
  "changed_loops (full_copy n path s) = changed_loops s"
  "num_paths (full_copy n path s) = num_paths s"
  "num_nodes (full_copy n path s) = num_nodes s"
  by (simp_all add: full_copy_def Let_def)

lemma full_loop_frame [simp]:
  "chains (full_loop node s) = chains s"
  "paths (full_loop node s) = paths s"
  "changed_paths (full_loop node s) = changed_paths s"
  "changed_loops (full_loop node s) = changed_loops s"
  "num_paths (full_loop node s) = num_paths s"
  "num_nodes (full_loop node s) = num_nodes s"
  by (simp_all add: full_loop_def)

lemma tentative_cong:
  "tentative s \<Longrightarrow> num_paths t = num_paths s \<Longrightarrow> length (chains t) = length (chains s) \<Longrightarrow>
   paths t = paths s \<Longrightarrow> changed_paths t = changed_paths s \<Longrightarrow> tentative t"
  by (simp add: tentative_def)

lemma IncrementalCommit_committed:
  assumes "tentative s" "set (changed_paths s) \<subseteq> {..<num_paths s}"
  shows "committed_state (IncrementalCommit s)"
proof -
  define s1 where "s1 = fold incremental_copy (ChangedPaths s) s"
  have f: "num_paths s1 = num_paths s" "length (chains s1) = length (chains s)"
    "paths s1 = paths s" "changed_paths s1 = changed_paths s"
    unfolding s1_def by (rule fold_frame, simp)+
  have "IncrementalCommit s = Revert
     (s1\<lparr>committed_index := fold (\<lambda>i ci. ci[committed_nodes s1 ! i := int i])
                   [length (committed_nodes s)..<length (committed_nodes s1)] (committed_index s1),
         committed_paths := fold (\<lambda>loop cp. cp[loop := - 1]) (changed_loops s1) (committed_paths s1)\<rparr>)"
    by (simp add: IncrementalCommit_def Let_def s1_def ChangedLoops_def)
  moreover have "committed_state (Revert
     (s1\<lparr>committed_index := fold (\<lambda>i ci. ci[committed_nodes s1 ! i := int i])
                   [length (committed_nodes s)..<length (committed_nodes s1)] (committed_index s1),
         committed_paths := fold (\<lambda>loop cp. cp[loop := - 1]) (changed_loops s1) (committed_paths s1)\<rparr>))"
    by (rule Revert_makes_committed) (use assms f in \<open>auto intro: tentative_cong\<close>)
  ultimately show ?thesis by simp
qed

lemma FullCommit_committed:
  assumes "tentative s" "set (changed_paths s) \<subseteq> {..<num_paths s}"
  shows "committed_state (FullCommit s)"
proof -
  define s1 where "s1 = fold (full_copy (length (committed_nodes s))) [0..<num_paths s] s"
  have f: "num_paths s1 = num_paths s" "length (chains s1) = length (chains s)"
    "paths s1 = paths s" "changed_paths s1 = changed_paths s"
    unfolding s1_def by (rule fold_frame, simp)+
  define s3 where "s3 = s1\<lparr>committed_nodes := drop (length (committed_nodes s)) (committed_nodes s1),
     committed_index := fold (\<lambda>i ci. ci[drop (length (committed_nodes s)) (committed_nodes s1) ! i := int i])
          [0..<length (drop (length (committed_nodes s)) (committed_nodes s1))]
          (replicate (num_nodes s1) (- 1))\<rparr>"
  define s4 where "s4 = fold full_loop [0..<num_nodes s3] s3"
  have f3: "num_paths s3 = num_paths s" "length (chains s3) = length (chains s)"
    "paths s3 = paths s" "changed_paths s3 = changed_paths s"
    using f by (simp_all add: s3_def)
  have f4: "num_paths s4 = num_paths s3" "chains s4 = chains s3"
    "paths s4 = paths s3" "changed_paths s4 = changed_paths s3"
    unfolding s4_def by (rule fold_frame, simp)+
  have "FullCommit s = Revert s4"
    by (simp add: FullCommit_def Let_def s1_def s3_def s4_def)
  moreover have "committed_state (Revert s4)"
    by (rule Revert_makes_committed) (use assms f3 f4 in \<open>auto intro: tentative_cong\<close>)
  ultimately show ?thesis by simp
qed

lemma Commit_committed:
  "tentative s \<Longrightarrow> set (changed_paths s) \<subseteq> {..<num_paths s} \<Longrightarrow> committed_state (Commit s)"
  by (simp add: Commit_def IncrementalCommit_committed FullCommit_committed)

lemma init_path_frame [simp]:
  "length (chains (init_path p s)) = length (chains s)"
  "length (paths (init_path p s)) = length (paths s)"
  "changed_paths (init_path p s) = changed_paths s"
  "changed_loops (init_path p s) = changed_loops s"
  "num_paths (init_path p s) = num_paths s"
  "is_invalid (init_path p s) = is_invalid s"
  by (simp_all add: init_path_def Let_def)

lemma init_loop_frame [simp]:
  "chains (init_loop p s) = chains s"
  "paths (init_loop p s) = paths s"
  "changed_paths (init_loop p s) = changed_paths s"
  "changed_loops (init_loop p s) = changed_loops s"
  "num_paths (init_loop p s) = num_paths s"
  "is_invalid (init_loop p s) = is_invalid s"
  by (simp_all add: init_loop_def)

lemma init_path_paths: "paths (init_path p s) = (paths s)[p := (p, p + 1)]"
  by (simp add: init_path_def Let_def)

lemma init_paths_nth:
  "k \<le> length (paths s) \<Longrightarrow> q < k \<Longrightarrow> paths (fold init_path [0..<k] s) ! q = (q, q + 1)"
proof (induction k)
  case 0
  then show ?case by simp
next
  case (Suc k)
  have len: "length (paths (fold init_path [0..<k] s)) = length (paths s)"
    by (rule fold_frame) simp
  show ?case
  proof (cases "q = k")
    case True
    then show ?thesis using Suc.prems len by (simp add: init_path_paths)
  next
    case False
    then have "paths (fold init_path [0..<k] s) ! q = (q, q + 1)"
      using Suc by simp
    then show ?thesis using False len by (simp add: init_path_paths)
  qed
qed

lemma PathState_init_committed:
  "committed_state (PathState_init n path_start path_end)"
proof -
  define np where "np = length path_start"
  define s0 where "s0 = \<lparr>num_nodes = n, num_paths = np, num_nodes_threshold = max 16 (4 * n),
                path_start_end = zip path_start path_end,
                committed_nodes = replicate (2 * np) 0,
                committed_index = replicate n (- 1),
                committed_paths = replicate n (- 1),
                chains = replicate (np + 1) (0, 0),
                paths = replicate np (0, 0),
                changed_paths = [], changed_loops = [], is_invalid = False\<rparr>"
  define s1 where "s1 = fold init_path [0..<np] s0"
  define s2 where "s2 = s1\<lparr>chains := (chains s1)[np := (0, 0)]\<rparr>"
  have "length (chains s1) = length (chains s0)" "length (paths s1) = length (paths s0)"
    "changed_paths s1 = changed_paths s0" "changed_loops s1 = changed_loops s0"
    "num_paths s1 = num_paths s0" "is_invalid s1 = is_invalid s0"
    unfolding s1_def by (rule fold_frame, simp)+
  then have s1: "length (chains s1) = np + 1" "length (paths s1) = np" "changed_paths s1 = []"
    "changed_loops s1 = []" "num_paths s1 = np" "\<not> is_invalid s1"
    by (simp_all add: s0_def)
  have p1: "paths s1 = map (\<lambda>p. (p, p + 1)) [0..<np]"
  proof (rule nth_equalityI)
    show "length (paths s1) = length (map (\<lambda>p. (p, p + 1)) [0..<np])"
      by (simp add: s1)
  next
    fix q assume "q < length (paths s1)"
    then have q: "q < np" by (simp add: s1)
    have "np \<le> length (paths s0)" by (simp add: s0_def)
    then have "paths (fold init_path [0..<np] s0) ! q = (q, q + 1)"
      using q by (rule init_paths_nth)
    then show "paths s1 ! q = map (\<lambda>p. (p, p + 1)) [0..<np] ! q"
      using q by (simp add: s1_def)
  qed
  have "PathState_init n path_start path_end = fold init_loop [0..<n] s2"
    by (simp add: PathState_init_def Let_def np_def s0_def s1_def s2_def)
  moreover have "chains (fold init_loop [0..<n] s2) = chains s2"
    "paths (fold init_loop [0..<n] s2) = paths s2"
    "changed_paths (fold init_loop [0..<n] s2) = changed_paths s2"
    "changed_loops (fold init_loop [0..<n] s2) = changed_loops s2"
    "num_paths (fold init_loop [0..<n] s2) = num_paths s2"
    "is_invalid (fold init_loop [0..<n] s2) = is_invalid s2"
    by (rule fold_frame, simp)+
  then have "committed_state (fold init_loop [0..<n] s2)"
    unfolding committed_state_def by (simp add: s2_def s1 p1)
  ultimately show ?thesis by simp
qed

definition S_path_state :: PathState where
  "S_path_state = PathState_init 4 [0] [1]"

definition S_changes :: "change list" where
  "S_changes = [DoChangePath 0 [(0, 1), (2, 3), (1, 2)], DoChangeLoops [3], DoSetInvalid]"

text \<open>C5. From a committed state (the state the constructor and both commits leave), after
  any sequence of \<open>ChangePath\<close>, \<open>ChangeLoops\<close> and \<open>SetInvalid\<close> on paths of the state,
  \<open>Revert\<close> gives back the committed state itself, so every query answers as it did: the
  chains and nodes of every path, the committed index and the path of every node, the empty
  change lists and the cleared invalid flag.\<close>

theorem Revert_restores_queries:
  assumes "committed_state s" and "list_all (valid_change s) cs"
  shows "Revert (fold apply_change cs s) = s \<and>
    Chains (Revert (fold apply_change cs s)) path = Chains s path \<and>
    Nodes (Revert (fold apply_change cs s)) path = Nodes s path \<and>
    CommittedIndex (Revert (fold apply_change cs s)) node = CommittedIndex s node \<and>
    Path (Revert (fold apply_change cs s)) node = Path s node \<and>
    ChangedPaths (Revert (fold apply_change cs s)) = [] \<and>
    ChangedLoops (Revert (fold apply_change cs s)) = [] \<and>
    \<not> IsInvalid (Revert (fold apply_change cs s))"
proof -
  have "Revert (fold apply_change cs s) = Revert s"
    using assms by (intro Revert_apply_changes committed_tentative)
  then have "Revert (fold apply_change cs s) = s"
    using assms(1) by (simp add: Revert_committed)
  then show ?thesis
    using assms(1) by (simp add: committed_state_def ChangedPaths_def ChangedLoops_def IsInvalid_def)
qed

theorem Revert_restores_queries_witness:
  "committed_state S_path_state \<and> list_all (valid_change S_path_state) S_changes \<and>
   IsInvalid (fold apply_change S_changes S_path_state) \<and>
   Nodes (fold apply_change S_changes S_path_state) 0 = [0, 2, 1] \<and>
   Revert (fold apply_change S_changes S_path_state) = S_path_state \<and>
   Nodes (Revert (fold apply_change S_changes S_path_state)) 0 = [0, 1] \<and>
   \<not> IsInvalid (Revert (fold apply_change S_changes S_path_state))"
proof -
  have c: "committed_state S_path_state"
    unfolding S_path_state_def by (rule PathState_init_committed)
  have np: "num_paths S_path_state = 1"
    by code_simp
  have v: "list_all (valid_change S_path_state) S_changes"
    by (simp add: S_changes_def np)
  have n: "Nodes S_path_state 0 = [0, 1]"
    by code_simp
  have t: "IsInvalid (fold apply_change S_changes S_path_state) \<and>
      Nodes (fold apply_change S_changes S_path_state) 0 = [0, 2, 1]"
    by code_simp
  have r: "Revert (fold apply_change S_changes S_path_state) = S_path_state"
    using Revert_restores_queries[OF c v, of 0 0] by blast
  have "\<not> IsInvalid S_path_state"
    using c by (simp add: committed_state_def IsInvalid_def)
  then show ?thesis
    using c v n t by (simp add: r)
qed


subsection \<open>Commit\<close>

lemma slice_append: "snd c \<le> length xs \<Longrightarrow> slice (xs @ ys) c = slice xs c"
  by (simp add: slice_def)

lemma slice_whole_suffix: "slice (xs @ ys) (length xs, length xs + length ys) = ys"
  by (simp add: slice_def)

text \<open>A chain list whose chains are ranges of the committed nodes.\<close>

definition chains_in_range :: "nat \<Rightarrow> ChainBounds list \<Rightarrow> bool" where
  "chains_in_range n cs = list_all (\<lambda>c. fst c \<le> snd c \<and> snd c \<le> n) cs"

lemma copy_chains_nodes:
  assumes "\<forall>i \<in> set is. snd (chains s ! i) \<le> n" "n \<le> length (committed_nodes s)"
  shows "committed_nodes (fold (copy_chain path) is s) =
    committed_nodes s @ concat (map (\<lambda>i. slice (take n (committed_nodes s)) (chains s ! i)) is)"
  using assms
proof (induction "is" arbitrary: s)
  case Nil
  then show ?case by simp
next
  case (Cons i "is")
  define t where "t = copy_chain path i s"
  have t: "chains t = chains s"
    "committed_nodes t = committed_nodes s @ slice (committed_nodes s) (chains s ! i)"
    by (simp_all add: t_def)
  have i: "snd (chains s ! i) \<le> n" using Cons.prems by simp
  have cut: "committed_nodes s = take n (committed_nodes s) @ drop n (committed_nodes s)"
    by simp
  have "slice (committed_nodes s) (chains s ! i) = slice (take n (committed_nodes s)) (chains s ! i)"
    using i Cons.prems(2) by (subst cut, subst slice_append) simp_all
  moreover have "take n (committed_nodes t) = take n (committed_nodes s)"
    using Cons.prems(2) by (simp add: t)
  moreover have "committed_nodes (fold (copy_chain path) is t) =
    committed_nodes t @ concat (map (\<lambda>i. slice (take n (committed_nodes t)) (chains t ! i)) is)"
    by (rule Cons.IH) (use Cons.prems in \<open>auto simp: t\<close>)
  ultimately show ?case using Cons.prems(2) by (simp add: t t_def[symmetric])
qed

lemma CopyNewPathAtEndOfNodes_nodes:
  assumes "chains_in_range n (Chains s path)" "n \<le> length (committed_nodes s)"
  shows "committed_nodes (CopyNewPathAtEndOfNodes path s) =
    committed_nodes s @ concat (map (slice (take n (committed_nodes s))) (Chains s path))"
proof -
  have "\<forall>i \<in> set [fst (paths s ! path)..<snd (paths s ! path)]. snd (chains s ! i) \<le> n"
    using assms(1) by (auto simp: chains_in_range_def Chains_def list_all_iff)
  then show ?thesis
    unfolding CopyNewPathAtEndOfNodes_def
    by (subst copy_chains_nodes[where n = n]) (use assms(2) in \<open>simp_all add: Chains_def comp_def\<close>)
qed

text \<open>The committed index of node \<open>n\<close> is a position of \<open>n\<close> in the committed nodes.\<close>

definition indexed :: "nat list \<Rightarrow> int list \<Rightarrow> nat \<Rightarrow> bool" where
  "indexed cn ci n = (0 \<le> ci ! n \<and> nat (ci ! n) < length cn \<and> cn ! nat (ci ! n) = n)"

lemma indexed_append: "indexed cn ci n \<Longrightarrow> indexed (cn @ ys) ci n"
  by (auto simp: indexed_def nth_append)

lemma reindex_indexed:
  assumes "\<forall>i \<in> set is. i < length cn" "n < length ci"
  shows "indexed cn ci n \<Longrightarrow> indexed cn (fold (\<lambda>i ci. ci[cn ! i := int i]) is ci) n"
  using assms
proof (induction "is" arbitrary: ci)
  case Nil
  then show ?case by simp
next
  case (Cons i "is")
  have "indexed cn (ci[cn ! i := int i]) n"
    using Cons.prems by (cases "cn ! i = n") (auto simp: indexed_def)
  then show ?case using Cons.prems by (simp add: Cons.IH)
qed

lemma length_reindex [simp]:
  "length (fold (\<lambda>i ci. ci[cn ! i := int i]) is ci) = length ci"
  by (induction "is" arbitrary: ci) auto


text \<open>The invariant of the committed nodes: every node has a committed index that is one of
  its positions, and the committed chain of every path is a range of the committed
  nodes.\<close>

definition wf_nodes :: "PathState \<Rightarrow> bool" where
  "wf_nodes s =
     (length (committed_index s) = num_nodes s \<and>
      (\<forall>n < num_nodes s. indexed (committed_nodes s) (committed_index s) n) \<and>
      chains_in_range (length (committed_nodes s)) (take (num_paths s) (chains s)))"

lemma Chains_ChangePath_same:
  "path < length (paths s) \<Longrightarrow> Chains (ChangePath path cs s) path = cs"
  by (auto simp: Chains_def ChangePath_def Let_def nth_append intro!: nth_equalityI)

lemma Chains_ChangePath_other:
  "committed_state s \<Longrightarrow> q < num_paths s \<Longrightarrow> q \<noteq> path \<Longrightarrow>
   Chains (ChangePath path cs s) q = [chains s ! q]"
  by (simp add: Chains_def ChangePath_def Let_def committed_state_def nth_append)

lemma Chains_committed:
  "committed_state s \<Longrightarrow> q < num_paths s \<Longrightarrow> Chains s q = [chains s ! q]"
  by (simp add: Chains_def committed_state_def)

lemma IncrementalCommit_ChangePath:
  assumes c: "committed_state s" and w: "wf_nodes s" and p: "path < num_paths s"
    and r: "chains_in_range (length (committed_nodes s)) cs"
  shows "Nodes (IncrementalCommit (ChangePath path cs s)) path =
           concat (map (slice (committed_nodes s)) cs)"
    and "\<forall>n < num_nodes s. indexed (committed_nodes (IncrementalCommit (ChangePath path cs s)))
           (committed_index (IncrementalCommit (ChangePath path cs s))) n"
    and "committed_nodes (IncrementalCommit (ChangePath path cs s)) =
           committed_nodes s @ concat (map (slice (committed_nodes s)) cs)"
proof -
  define t where "t = ChangePath path cs s"
  define new where "new = concat (map (slice (committed_nodes s)) cs)"
  define t1 where "t1 = CopyNewPathAtEndOfNodes path t"
  have pl: "path < length (paths s)" using c p by (simp add: committed_state_def)
  have t: "committed_nodes t = committed_nodes s" "committed_index t = committed_index s"
    "changed_paths t = [path]" "changed_loops t = []" "num_paths t = num_paths s"
    "length (paths t) = length (paths s)" "num_nodes t = num_nodes s"
    using c by (simp_all add: t_def ChangePath_def Let_def committed_state_def)
  have ch: "Chains t path = cs"
    unfolding t_def using pl by (rule Chains_ChangePath_same)
  have "chains_in_range (length (committed_nodes t)) (Chains t path)"
    using r by (simp add: t ch)
  then have "committed_nodes t1 = committed_nodes t @
      concat (map (slice (take (length (committed_nodes t)) (committed_nodes t))) (Chains t path))"
    unfolding t1_def by (rule CopyNewPathAtEndOfNodes_nodes) simp
  then have cn1: "committed_nodes t1 = committed_nodes s @ new"
    by (simp add: t new_def ch)
  have f1: "committed_index t1 = committed_index s" "changed_paths t1 = [path]"
    "changed_loops t1 = []" "num_paths t1 = num_paths s" "paths t1 = paths t"
    "chains t1 = chains t" "num_nodes t1 = num_nodes s"
    by (simp_all add: t1_def t)
  define ci2 where "ci2 = fold (\<lambda>i ci. ci[(committed_nodes s @ new) ! i := int i])
      [length (committed_nodes s)..<length (committed_nodes s) + length new] (committed_index s)"
  define u where "u = t1\<lparr>chains := (chains t)[path := (length (committed_nodes s),
        length (committed_nodes s) + length new)],
      committed_index := ci2\<rparr>"
  have res: "IncrementalCommit t = Revert u"
    by (simp add: IncrementalCommit_def Let_def ChangedPaths_def ChangedLoops_def t
        incremental_copy_def t1_def[symmetric] cn1 f1 u_def ci2_def)
  have lc: "path < length (chains t)" "num_paths s + 1 \<le> length (chains t)"
    using c p by (simp_all add: t_def ChangePath_def Let_def committed_state_def)
  have "paths (Revert u) ! path = (path, path + 1)"
    using pl by (simp add: Revert_def u_def f1 nth_reset_paths t)
  moreover have "chains (Revert u) ! path =
      (length (committed_nodes s), length (committed_nodes s) + length new)"
    using lc p by (simp add: Revert_def u_def f1)
  moreover have "committed_nodes (Revert u) = committed_nodes s @ new"
    by (simp add: Revert_def u_def cn1)
  ultimately have "Nodes (Revert u) path = new"
    by (simp add: Nodes_def Chains_def slice_whole_suffix)
  then show "Nodes (IncrementalCommit (ChangePath path cs s)) path =
           concat (map (slice (committed_nodes s)) cs)"
    using res by (simp add: t_def new_def)
  have "\<forall>n < num_nodes s. indexed (committed_nodes s @ new) ci2 n"
  proof (intro allI impI)
    fix n assume n: "n < num_nodes s"
    then have "indexed (committed_nodes s) (committed_index s) n"
      using w by (simp add: wf_nodes_def)
    then have "indexed (committed_nodes s @ new) (committed_index s) n"
      by (rule indexed_append)
    moreover have "n < length (committed_index s)" using w n by (simp add: wf_nodes_def)
    ultimately show "indexed (committed_nodes s @ new) ci2 n"
      unfolding ci2_def by (intro reindex_indexed) auto
  qed
  moreover have "committed_index (Revert u) = ci2"
    by (simp add: Revert_def u_def)
  ultimately show "\<forall>n < num_nodes s. indexed (committed_nodes (IncrementalCommit (ChangePath path cs s)))
           (committed_index (IncrementalCommit (ChangePath path cs s))) n"
    using res \<open>committed_nodes (Revert u) = committed_nodes s @ new\<close> by (simp add: t_def)
  show "committed_nodes (IncrementalCommit (ChangePath path cs s)) =
           committed_nodes s @ concat (map (slice (committed_nodes s)) cs)"
    using res \<open>committed_nodes (Revert u) = committed_nodes s @ new\<close>
    by (simp add: t_def new_def)
qed


lemma slice_middle: "slice (a @ b @ c) (length a, length a + length b) = b"
  by (simp add: slice_def)

lemma reindex_unindexed_or_indexed:
  assumes "\<forall>i \<in> set is. i < length cn" "n < length ci"
  shows "ci ! n = - 1 \<or> indexed cn ci n \<Longrightarrow>
    fold (\<lambda>i ci. ci[cn ! i := int i]) is ci ! n = - 1
    \<or> indexed cn (fold (\<lambda>i ci. ci[cn ! i := int i]) is ci) n"
  using assms
proof (induction "is" arbitrary: ci)
  case Nil
  then show ?case by simp
next
  case (Cons i "is")
  have "ci[cn ! i := int i] ! n = - 1 \<or> indexed cn (ci[cn ! i := int i]) n"
    using Cons.prems by (cases "cn ! i = n") (auto simp: indexed_def)
  then show ?case using Cons.prems by (simp add: Cons.IH)
qed

text \<open>The last loop of \<open>FullCommit\<close>, over the nodes that no path holds.\<close>

definition full_loop_inv :: "nat \<Rightarrow> nat \<Rightarrow> PathState \<Rightarrow> bool" where
  "full_loop_inv N k u =
     (length (committed_index u) = N \<and>
      (\<forall>n < N. (n < k \<longrightarrow> indexed (committed_nodes u) (committed_index u) n) \<and>
         (committed_index u ! n = - 1 \<or> indexed (committed_nodes u) (committed_index u) n)))"

lemma full_loop_step:
  assumes "full_loop_inv N k u" "k < N"
  shows "full_loop_inv N (Suc k) (full_loop k u)"
proof (cases "committed_index u ! k \<noteq> - 1")
  case True
  then have "full_loop k u = u" by (simp add: full_loop_def)
  moreover have "indexed (committed_nodes u) (committed_index u) k"
    using assms True by (auto simp: full_loop_inv_def)
  ultimately show ?thesis
    using assms by (auto simp: full_loop_inv_def less_Suc_eq)
next
  case False
  then have u: "committed_index (full_loop k u) =
        (committed_index u)[k := int (length (committed_nodes u))]"
      "committed_nodes (full_loop k u) = committed_nodes u @ [k]"
    by (simp_all add: full_loop_def)
  have len: "length (committed_index u) = N" using assms by (simp add: full_loop_inv_def)
  have k: "indexed (committed_nodes u @ [k])
      ((committed_index u)[k := int (length (committed_nodes u))]) k"
    using assms(2) len by (simp add: indexed_def)
  have other: "\<And>n. n \<noteq> k \<Longrightarrow> indexed (committed_nodes u) (committed_index u) n \<Longrightarrow>
      indexed (committed_nodes u @ [k])
        ((committed_index u)[k := int (length (committed_nodes u))]) n"
    by (auto simp: indexed_def nth_append)
  show ?thesis
    unfolding full_loop_inv_def u
  proof (intro conjI allI impI)
    show "length ((committed_index u)[k := int (length (committed_nodes u))]) = N"
      using len by simp
  next
    fix n assume "n < N" "n < Suc k"
    then show "indexed (committed_nodes u @ [k])
        ((committed_index u)[k := int (length (committed_nodes u))]) n"
      using assms(1) k other by (cases "n = k") (auto simp: full_loop_inv_def)
  next
    fix n assume "n < N"
    then show "(committed_index u)[k := int (length (committed_nodes u))] ! n = - 1 \<or>
        indexed (committed_nodes u @ [k])
          ((committed_index u)[k := int (length (committed_nodes u))]) n"
      using assms(1) k other by (cases "n = k") (auto simp: full_loop_inv_def)
  qed
qed

lemma full_loop_fold:
  "full_loop_inv N 0 u \<Longrightarrow> k \<le> N \<Longrightarrow> full_loop_inv N k (fold full_loop [0..<k] u)"
proof (induction k)
  case 0
  then show ?case by simp
next
  case (Suc k)
  then have "full_loop_inv N k (fold full_loop [0..<k] u)" by simp
  then have "full_loop_inv N (Suc k) (full_loop k (fold full_loop [0..<k] u))"
    using Suc.prems by (intro full_loop_step) simp_all
  then show ?case by simp
qed

lemma full_loop_nodes_step:
  "\<exists>ys. committed_nodes (full_loop n u) = committed_nodes u @ ys"
  by (simp add: full_loop_def)

lemma full_loop_nodes_prefix:
  "\<exists>ys. committed_nodes (fold full_loop ns u) = committed_nodes u @ ys"
proof (induction ns arbitrary: u)
  case Nil
  then show ?case by simp
next
  case (Cons n ns)
  obtain ys where ys: "committed_nodes (fold full_loop ns (full_loop n u)) =
      committed_nodes (full_loop n u) @ ys"
    using Cons.IH by blast
  obtain zs where zs: "committed_nodes (full_loop n u) = committed_nodes u @ zs"
    using full_loop_nodes_step by blast
  have "committed_nodes (fold full_loop (n # ns) u) = committed_nodes u @ (zs @ ys)"
    using ys zs by simp
  then show ?case by blast
qed


text \<open>The first loop of \<open>FullCommit\<close>: after the paths below \<open>k\<close>, their nodes are copied
  in order behind the old nodes, and their chains are the ranges of the copies.\<close>

definition path_offset :: "PathState \<Rightarrow> nat \<Rightarrow> nat" where
  "path_offset t q = length (concat (map (Nodes t) [0..<q]))"

definition full_copy_inv :: "PathState \<Rightarrow> nat \<Rightarrow> PathState \<Rightarrow> bool" where
  "full_copy_inv t k u =
     (committed_nodes u = committed_nodes t @ concat (map (Nodes t) [0..<k]) \<and>
      paths u = paths t \<and> length (chains u) = length (chains t) \<and>
      (\<forall>q < k. q < length (chains t) \<longrightarrow>
          chains u ! q = (path_offset t q, path_offset t (Suc q))) \<and>
      (\<forall>i \<ge> k. chains u ! i = chains t ! i) \<and>
      num_nodes u = num_nodes t \<and> num_paths u = num_paths t \<and>
      changed_paths u = changed_paths t \<and> changed_loops u = changed_loops t)"

lemma path_offset_Suc: "path_offset t (Suc q) = path_offset t q + length (Nodes t q)"
  by (simp add: path_offset_def)

lemma full_copy_step:
  assumes inv: "full_copy_inv t k u"
    and r: "chains_in_range (length (committed_nodes t)) (Chains t k)"
    and i: "\<forall>i \<in> {fst (paths t ! k)..<snd (paths t ! k)}. k \<le> i"
  shows "full_copy_inv t (Suc k) (full_copy (length (committed_nodes t)) k u)"
proof -
  define old where "old = length (committed_nodes t)"
  have ch: "Chains u k = Chains t k"
    using inv i by (auto simp: Chains_def full_copy_inv_def)
  have cnu: "committed_nodes u = committed_nodes t @ concat (map (Nodes t) [0..<k])"
    using inv by (simp add: full_copy_inv_def)
  have "committed_nodes (CopyNewPathAtEndOfNodes k u) = committed_nodes u @
      concat (map (slice (take old (committed_nodes u))) (Chains u k))"
    by (rule CopyNewPathAtEndOfNodes_nodes) (use r in \<open>simp_all add: ch old_def cnu\<close>)
  then have cn1: "committed_nodes (CopyNewPathAtEndOfNodes k u) =
      committed_nodes t @ concat (map (Nodes t) [0..<Suc k])"
    by (simp add: ch old_def cnu Nodes_def)
  have lens: "length (committed_nodes u) - old = path_offset t k"
    "length (committed_nodes (CopyNewPathAtEndOfNodes k u)) - old = path_offset t (Suc k)"
    by (simp_all add: cn1 cnu old_def path_offset_def)
  have res: "full_copy old k u = (CopyNewPathAtEndOfNodes k u)
      \<lparr>chains := (chains u)[k := (path_offset t k, path_offset t (Suc k))]\<rparr>"
    by (simp add: full_copy_def Let_def lens)
  show ?thesis
    unfolding old_def[symmetric] res full_copy_inv_def
    using inv
    by (auto simp: cn1 full_copy_inv_def nth_list_update less_Suc_eq)
qed

lemma full_copy_fold:
  assumes r: "\<forall>q < np. chains_in_range (length (committed_nodes t)) (Chains t q)"
    and i: "\<forall>q < np. \<forall>i \<in> {fst (paths t ! q)..<snd (paths t ! q)}. q \<le> i"
  shows "k \<le> np \<Longrightarrow>
    full_copy_inv t k (fold (full_copy (length (committed_nodes t))) [0..<k] t)"
proof (induction k)
  case 0
  then show ?case by (simp add: full_copy_inv_def)
next
  case (Suc k)
  then have inv: "full_copy_inv t k (fold (full_copy (length (committed_nodes t))) [0..<k] t)"
    by simp
  have "full_copy_inv t (Suc k) (full_copy (length (committed_nodes t)) k
      (fold (full_copy (length (committed_nodes t))) [0..<k] t))"
    using inv by (rule full_copy_step) (use Suc.prems r i in auto)
  then show ?case by simp
qed


lemma upt_split3: "p < n \<Longrightarrow> [0..<n] = [0..<p] @ [p] @ [Suc p..<n]"
  by (metis append_Cons append_Nil less_imp_le_nat upt_add_eq_append upt_conv_Cons
      le_add_diff_inverse zero_le)

lemma FullCommit_ChangePath:
  assumes c: "committed_state s" and w: "wf_nodes s" and p: "path < num_paths s"
    and r: "chains_in_range (length (committed_nodes s)) cs"
  shows "Nodes (FullCommit (ChangePath path cs s)) path =
           concat (map (slice (committed_nodes s)) cs)"
    and "\<forall>n < num_nodes s. indexed (committed_nodes (FullCommit (ChangePath path cs s)))
           (committed_index (FullCommit (ChangePath path cs s))) n"
proof -
  define t where "t = ChangePath path cs s"
  define np where "np = num_paths s"
  define N where "N = num_nodes s"
  have pl: "path < length (paths s)" "length (chains s) = np + 1"
    using c p by (simp_all add: committed_state_def np_def)
  have t: "committed_nodes t = committed_nodes s" "changed_paths t = [path]"
    "num_paths t = np" "length (paths t) = length (paths s)" "num_nodes t = N"
    "length (chains t) = np + 1 + length cs + 1"
    using pl c by (simp_all add: t_def ChangePath_def Let_def np_def N_def committed_state_def)
  have ch: "Chains t path = cs"
    unfolding t_def using pl(1) by (rule Chains_ChangePath_same)
  have cho: "\<And>q. q < np \<Longrightarrow> q \<noteq> path \<Longrightarrow> Chains t q = [chains s ! q]"
    unfolding t_def np_def using c by (rule Chains_ChangePath_other)
  have R: "\<forall>q < np. chains_in_range (length (committed_nodes t)) (Chains t q)"
  proof (intro allI impI)
    fix q assume q: "q < np"
    show "chains_in_range (length (committed_nodes t)) (Chains t q)"
    proof (cases "q = path")
      case True
      then show ?thesis using r by (simp add: ch t)
    next
      case False
      have "chains s ! q \<in> set (take np (chains s))"
        using q pl(2) by (metis in_set_conv_nth length_take less_add_one min.absorb2
            nth_take order_less_imp_le trans_less_add1)
      then show ?thesis
        using w False q by (simp add: cho t wf_nodes_def chains_in_range_def list_all_iff np_def)
    qed
  qed
  have I: "\<forall>q < np. \<forall>i \<in> {fst (paths t ! q)..<snd (paths t ! q)}. q \<le> i"
  proof (intro allI impI ballI)
    fix q i assume q: "q < np" and i: "i \<in> {fst (paths t ! q)..<snd (paths t ! q)}"
    show "q \<le> i"
    proof (cases "q = path")
      case True
      then show ?thesis using i q pl by (simp add: t_def ChangePath_def Let_def)
    next
      case False
      then have "paths t ! q = (q, q + 1)"
        using c q by (simp add: t_def ChangePath_def Let_def committed_state_def np_def)
      then show ?thesis using i by simp
    qed
  qed
  define t1 where "t1 = fold (full_copy (length (committed_nodes s))) [0..<np] t"
  have "full_copy_inv t np (fold (full_copy (length (committed_nodes t))) [0..<np] t)"
    using R I by (rule full_copy_fold) simp
  then have inv: "full_copy_inv t np t1"
    by (simp add: t1_def t(1))
  define pn where "pn = concat (map (Nodes t) [0..<np])"
  have cn1: "committed_nodes t1 = committed_nodes t @ pn"
    using inv by (simp add: full_copy_inv_def pn_def)
  define s3 where "s3 = t1\<lparr>committed_nodes := pn,
      committed_index := fold (\<lambda>i ci. ci[pn ! i := int i]) [0..<length pn] (replicate N (- 1))\<rparr>"
  define s4 where "s4 = fold full_loop [0..<N] s3"
  have f1: "num_nodes t1 = N" "num_paths t1 = np" "changed_paths t1 = [path]"
    "paths t1 = paths t" "length (chains t1) = length (chains t)"
    using inv by (simp_all add: full_copy_inv_def t)
  have res: "FullCommit t = Revert s4"
    by (simp add: FullCommit_def Let_def t t1_def[symmetric] cn1 f1 s3_def s4_def)
  have f4: "chains s4 = chains s3" "paths s4 = paths s3" "changed_paths s4 = changed_paths s3"
    "num_paths s4 = num_paths s3"
    unfolding s4_def by (rule fold_frame, simp)+
  \<comment> \<open>the committed index\<close>
  have "\<And>n. n < N \<Longrightarrow>
      fold (\<lambda>i ci. ci[pn ! i := int i]) [0..<length pn] (replicate N (- 1)) ! n = - 1
      \<or> indexed pn (fold (\<lambda>i ci. ci[pn ! i := int i]) [0..<length pn] (replicate N (- 1))) n"
    by (rule reindex_unindexed_or_indexed) simp_all
  then have "full_loop_inv N 0 s3"
    unfolding full_loop_inv_def by (simp add: s3_def)
  then have "full_loop_inv N N s4"
    unfolding s4_def by (rule full_loop_fold) simp
  then have "\<forall>n < N. indexed (committed_nodes (Revert s4)) (committed_index (Revert s4)) n"
    by (simp add: full_loop_inv_def Revert_def)
  then show "\<forall>n < num_nodes s. indexed (committed_nodes (FullCommit (ChangePath path cs s)))
           (committed_index (FullCommit (ChangePath path cs s))) n"
    using res by (simp add: t_def N_def)
  \<comment> \<open>the nodes of the path\<close>
  obtain ys where ys: "committed_nodes s4 = pn @ ys"
    using full_loop_nodes_prefix[of "[0..<N]" s3] by (auto simp: s4_def s3_def)
  have pnsplit: "pn = concat (map (Nodes t) [0..<path]) @ Nodes t path
      @ concat (map (Nodes t) [Suc path..<np])"
    using p by (simp add: pn_def np_def upt_split3[of path "num_paths s"])
  have "paths (Revert s4) ! path = (path, path + 1)"
    using pl(1) by (simp add: Revert_def f4 s3_def f1 nth_reset_paths t)
  moreover have "chains (Revert s4) ! path = (path_offset t path, path_offset t (Suc path))"
    using inv p by (simp add: Revert_def f4 s3_def f1 full_copy_inv_def t np_def)
  moreover have "committed_nodes (Revert s4) = pn @ ys"
    by (simp add: Revert_def ys)
  ultimately have "Nodes (Revert s4) path = Nodes t path"
    by (simp add: Nodes_def[of "Revert s4"] Chains_def pnsplit path_offset_Suc
        path_offset_def[of t path] slice_middle)
  then show "Nodes (FullCommit (ChangePath path cs s)) path =
           concat (map (slice (committed_nodes s)) cs)"
    using res by (simp add: t_def[symmetric] Nodes_def[of t] ch t)
qed


text \<open>After a full commit the committed nodes are the nodes of the paths followed by the
  nodes no path holds; when no node is twice on the paths, every node is there once.\<close>

lemma reindex_unindexed_iff:
  assumes "n < length ci"
  shows "(fold (\<lambda>i ci. ci[cn ! i := int i]) is ci ! n = - 1) =
     (ci ! n = - 1 \<and> n \<notin> (\<lambda>i. cn ! i) ` set is)"
  using assms
proof (induction "is" arbitrary: ci)
  case Nil
  then show ?case by simp
next
  case (Cons i "is")
  have "(fold (\<lambda>i ci. ci[cn ! i := int i]) is (ci[cn ! i := int i]) ! n = - 1) =
     ((ci[cn ! i := int i]) ! n = - 1 \<and> n \<notin> (\<lambda>i. cn ! i) ` set is)"
    by (rule Cons.IH) (use Cons.prems in simp)
  then show ?case using Cons.prems by (cases "cn ! i = n") auto
qed

definition full_loop_count :: "int list \<Rightarrow> nat list \<Rightarrow> nat \<Rightarrow> PathState \<Rightarrow> bool" where
  "full_loop_count ci0 cn0 k u =
     (length (committed_index u) = length ci0 \<and>
      (\<forall>n \<ge> k. committed_index u ! n = ci0 ! n) \<and>
      committed_nodes u = cn0 @ filter (\<lambda>n. ci0 ! n = - 1) [0..<k])"

lemma full_loop_count_fold:
  "k \<le> length (committed_index u) \<Longrightarrow>
   full_loop_count (committed_index u) (committed_nodes u) k (fold full_loop [0..<k] u)"
proof (induction k)
  case 0
  then show ?case by (simp add: full_loop_count_def)
next
  case (Suc k)
  define v where "v = fold full_loop [0..<k] u"
  have v: "full_loop_count (committed_index u) (committed_nodes u) k v"
    using Suc by (simp add: v_def)
  then have "full_loop_count (committed_index u) (committed_nodes u) (Suc k) (full_loop k v)"
    by (auto simp: full_loop_count_def full_loop_def)
  then show ?case by (simp add: v_def)
qed

lemma FullCommit_nodes_once:
  assumes c: "committed_state s" and w: "wf_nodes s" and p: "path < num_paths s"
    and r: "chains_in_range (length (committed_nodes s)) cs"
    and d: "distinct (concat (map (Nodes (ChangePath path cs s)) [0..<num_paths s]))"
    and b: "set (concat (map (Nodes (ChangePath path cs s)) [0..<num_paths s])) \<subseteq> {..<num_nodes s}"
  shows "length (committed_nodes (FullCommit (ChangePath path cs s))) = num_nodes s"
proof -
  define t where "t = ChangePath path cs s"
  define np where "np = num_paths s"
  define N where "N = num_nodes s"
  define pn where "pn = concat (map (Nodes t) [0..<np])"
  have pl: "path < length (paths s)" "length (chains s) = np + 1"
    using c p by (simp_all add: committed_state_def np_def)
  have t: "committed_nodes t = committed_nodes s" "changed_paths t = [path]"
    "num_paths t = np" "length (paths t) = length (paths s)" "num_nodes t = N"
    using pl c by (simp_all add: t_def ChangePath_def Let_def np_def N_def committed_state_def)
  have ch: "Chains t path = cs"
    unfolding t_def using pl(1) by (rule Chains_ChangePath_same)
  have cho: "\<And>q. q < np \<Longrightarrow> q \<noteq> path \<Longrightarrow> Chains t q = [chains s ! q]"
    unfolding t_def np_def using c by (rule Chains_ChangePath_other)
  have R: "\<forall>q < np. chains_in_range (length (committed_nodes t)) (Chains t q)"
  proof (intro allI impI)
    fix q assume q: "q < np"
    show "chains_in_range (length (committed_nodes t)) (Chains t q)"
    proof (cases "q = path")
      case True
      then show ?thesis using r by (simp add: ch t)
    next
      case False
      have "chains s ! q \<in> set (take np (chains s))"
        using q pl(2) by (metis in_set_conv_nth length_take less_add_one min.absorb2
            nth_take order_less_imp_le trans_less_add1)
      then show ?thesis
        using w False q by (simp add: cho t wf_nodes_def chains_in_range_def list_all_iff np_def)
    qed
  qed
  have I: "\<forall>q < np. \<forall>i \<in> {fst (paths t ! q)..<snd (paths t ! q)}. q \<le> i"
  proof (intro allI impI ballI)
    fix q i assume q: "q < np" and i: "i \<in> {fst (paths t ! q)..<snd (paths t ! q)}"
    show "q \<le> i"
    proof (cases "q = path")
      case True
      then show ?thesis using i q pl by (simp add: t_def ChangePath_def Let_def)
    next
      case False
      then have "paths t ! q = (q, q + 1)"
        using c q by (simp add: t_def ChangePath_def Let_def committed_state_def np_def)
      then show ?thesis using i by simp
    qed
  qed
  define t1 where "t1 = fold (full_copy (length (committed_nodes s))) [0..<np] t"
  have "full_copy_inv t np (fold (full_copy (length (committed_nodes t))) [0..<np] t)"
    using R I by (rule full_copy_fold) simp
  then have inv: "full_copy_inv t np t1"
    by (simp add: t1_def t(1))
  have cn1: "committed_nodes t1 = committed_nodes t @ pn"
    using inv by (simp add: full_copy_inv_def pn_def)
  define ci3 where "ci3 = fold (\<lambda>i ci. ci[pn ! i := int i]) [0..<length pn] (replicate N (- 1))"
  define s3 where "s3 = t1\<lparr>committed_nodes := pn, committed_index := ci3\<rparr>"
  define s4 where "s4 = fold full_loop [0..<N] s3"
  have f1: "num_nodes t1 = N" "num_paths t1 = np"
    using inv by (simp_all add: full_copy_inv_def t)
  have res: "FullCommit t = Revert s4"
    by (simp add: FullCommit_def Let_def t t1_def[symmetric] cn1 f1 s3_def s4_def ci3_def)
  have "full_loop_count (committed_index s3) (committed_nodes s3) N (fold full_loop [0..<N] s3)"
    by (rule full_loop_count_fold) (simp add: s3_def ci3_def)
  then have cn4: "committed_nodes s4 = pn @ filter (\<lambda>n. ci3 ! n = - 1) [0..<N]"
    by (simp add: full_loop_count_def s4_def s3_def)
  have un: "\<And>n. n < N \<Longrightarrow> (ci3 ! n = - 1) = (n \<notin> set pn)"
  proof -
    fix n assume "n < N"
    then have "(ci3 ! n = - 1) = (replicate N (- 1 :: int) ! n = - 1
        \<and> n \<notin> (\<lambda>i. pn ! i) ` set [0..<length pn])"
      unfolding ci3_def by (intro reindex_unindexed_iff) simp
    moreover have "(\<lambda>i. pn ! i) ` set [0..<length pn] = set pn"
      by (simp add: nth_image)
    ultimately show "(ci3 ! n = - 1) = (n \<notin> set pn)"
      using \<open>n < N\<close> by simp
  qed
  have "filter (\<lambda>n. ci3 ! n = - 1) [0..<N] = filter (\<lambda>n. n \<notin> set pn) [0..<N]"
    by (rule filter_cong) (auto simp: un)
  then have "length (committed_nodes s4) = length pn + length (filter (\<lambda>n. n \<notin> set pn) [0..<N])"
    by (simp add: cn4)
  also have "length pn = card (set pn)"
  proof -
    have "distinct pn" using d by (simp add: pn_def t_def np_def)
    then show ?thesis by (simp only: distinct_card)
  qed
  also have "length (filter (\<lambda>n. n \<notin> set pn) [0..<N]) = card ({..<N} - set pn)"
  proof -
    have "distinct (filter (\<lambda>n. n \<notin> set pn) [0..<N])" by simp
    then have "length (filter (\<lambda>n. n \<notin> set pn) [0..<N])
        = card (set (filter (\<lambda>n. n \<notin> set pn) [0..<N]))"
      by (simp only: distinct_card)
    also have "set (filter (\<lambda>n. n \<notin> set pn) [0..<N]) = {..<N} - set pn" by auto
    finally show ?thesis .
  qed
  also have "card (set pn) + card ({..<N} - set pn) = card {..<N}"
  proof -
    have "set pn \<subseteq> {..<N}" using b by (simp add: pn_def t_def np_def N_def)
    then show ?thesis
      by (metis add.commute card_Diff_subset card_mono finite_lessThan finite_subset
          le_add_diff_inverse)
  qed
  finally have "length (committed_nodes s4) = N" by simp
  then show ?thesis using res by (simp add: Revert_def t_def N_def)
qed


text \<open>What a commit of a changed path establishes: the nodes of the path are the
  concatenation of the node slices of its new chains, every node has a committed index at
  which the committed nodes hold it (so the committed index is injective), and the change
  lists are empty.\<close>

definition commit_postcondition ::
  "PathState \<Rightarrow> nat \<Rightarrow> ChainBounds list \<Rightarrow> PathState \<Rightarrow> bool" where
  "commit_postcondition s path cs s' =
     (Nodes s' path = concat (map (slice (committed_nodes s)) cs) \<and>
      (\<forall>n < num_nodes s. indexed (committed_nodes s') (committed_index s') n) \<and>
      inj_on (\<lambda>n. committed_index s' ! n) {..<num_nodes s} \<and>
      ChangedPaths s' = [] \<and> ChangedLoops s' = [])"

lemma indexed_inj:
  assumes "\<forall>n < N. indexed cn ci n"
  shows "inj_on (\<lambda>n. ci ! n) {..<N}"
proof (rule inj_onI)
  fix x y assume xy: "x \<in> {..<N}" "y \<in> {..<N}" and eq: "ci ! x = ci ! y"
  have "cn ! nat (ci ! x) = x" using assms xy(1) by (simp add: indexed_def)
  moreover have "cn ! nat (ci ! y) = y" using assms xy(2) by (simp add: indexed_def)
  ultimately show "x = y" using eq by metis
qed

lemma indexed_bij:
  assumes "\<forall>n < N. indexed cn ci n" "length cn = N"
  shows "bij_betw (\<lambda>n. nat (ci ! n)) {..<N} {..<length cn}"
proof -
  have inj: "inj_on (\<lambda>n. nat (ci ! n)) {..<N}"
  proof (rule inj_onI)
    fix x y assume xy: "x \<in> {..<N}" "y \<in> {..<N}" and eq: "nat (ci ! x) = nat (ci ! y)"
    have "cn ! nat (ci ! x) = x" using assms xy(1) by (simp add: indexed_def)
    moreover have "cn ! nat (ci ! y) = y" using assms xy(2) by (simp add: indexed_def)
    ultimately show "x = y" using eq by metis
  qed
  have sub: "(\<lambda>n. nat (ci ! n)) ` {..<N} \<subseteq> {..<length cn}"
    using assms by (auto simp: indexed_def)
  have "card ((\<lambda>n. nat (ci ! n)) ` {..<N}) = card {..<length cn}"
    using inj assms(2) by (simp add: card_image)
  then have "(\<lambda>n. nat (ci ! n)) ` {..<N} = {..<length cn}"
    using sub by (intro card_subset_eq) simp_all
  then show ?thesis using inj by (simp add: bij_betw_def)
qed

text \<open>C4 (amended). From a committed state whose nodes are indexed, after \<open>ChangePath\<close> of
  a path to chains that are ranges of the committed nodes, the incremental commit, the full
  commit and \<open>Commit\<close> (which is one of the two) all establish the postcondition above. The
  committed index is moreover a bijection from the nodes onto the positions of the
  committed nodes after the full commit, when no node is twice on the paths.\<close>

theorem Commit_ChangePath_postcondition:
  assumes c: "committed_state s" and w: "wf_nodes s" and p: "path < num_paths s"
    and r: "chains_in_range (length (committed_nodes s)) cs"
  shows "commit_postcondition s path cs (IncrementalCommit (ChangePath path cs s)) \<and>
    commit_postcondition s path cs (FullCommit (ChangePath path cs s)) \<and>
    commit_postcondition s path cs (Commit (ChangePath path cs s)) \<and>
    (distinct (concat (map (Nodes (ChangePath path cs s)) [0..<num_paths s])) \<and>
     set (concat (map (Nodes (ChangePath path cs s)) [0..<num_paths s])) \<subseteq> {..<num_nodes s}
     \<longrightarrow> bij_betw (\<lambda>n. nat (committed_index (FullCommit (ChangePath path cs s)) ! n))
           {..<num_nodes s} {..<length (committed_nodes (FullCommit (ChangePath path cs s)))})"
proof -
  define t where "t = ChangePath path cs s"
  have tt: "tentative t" "set (changed_paths t) \<subseteq> {..<num_paths t}"
    using c p by (auto simp: t_def ChangePath_def Let_def committed_state_def tentative_def
        nth_list_update)
  have ci: "committed_state (IncrementalCommit t)" and cf: "committed_state (FullCommit t)"
    using tt by (simp_all add: IncrementalCommit_committed FullCommit_committed)
  have inc: "commit_postcondition s path cs (IncrementalCommit t)"
    unfolding commit_postcondition_def t_def
    using IncrementalCommit_ChangePath[OF c w p r] ci
    by (simp add: indexed_inj committed_state_def ChangedPaths_def ChangedLoops_def t_def)
  have full: "commit_postcondition s path cs (FullCommit t)"
    unfolding commit_postcondition_def t_def
    using FullCommit_ChangePath[OF c w p r] cf
    by (simp add: indexed_inj committed_state_def ChangedPaths_def ChangedLoops_def t_def)
  have com: "commit_postcondition s path cs (Commit t)"
    using inc full by (simp add: Commit_def)
  have bij: "distinct (concat (map (Nodes t) [0..<num_paths s])) \<and>
     set (concat (map (Nodes t) [0..<num_paths s])) \<subseteq> {..<num_nodes s}
     \<longrightarrow> bij_betw (\<lambda>n. nat (committed_index (FullCommit t) ! n))
           {..<num_nodes s} {..<length (committed_nodes (FullCommit t))}"
  proof
    assume d: "distinct (concat (map (Nodes t) [0..<num_paths s])) \<and>
     set (concat (map (Nodes t) [0..<num_paths s])) \<subseteq> {..<num_nodes s}"
    have "length (committed_nodes (FullCommit t)) = num_nodes s"
      unfolding t_def by (rule FullCommit_nodes_once[OF c w p r]) (use d in \<open>simp_all add: t_def\<close>)
    then show "bij_betw (\<lambda>n. nat (committed_index (FullCommit t) ! n))
           {..<num_nodes s} {..<length (committed_nodes (FullCommit t))}"
      using FullCommit_ChangePath(2)[OF c w p r] by (intro indexed_bij) (simp_all add: t_def)
  qed
  show ?thesis using inc full com bij by (simp add: t_def)
qed

definition S_chains :: "ChainBounds list" where
  "S_chains = [(0, 1), (2, 3), (1, 2)]"

lemma S_path_state_eq:
  "S_path_state = \<lparr>num_nodes = 4, num_paths = 1, num_nodes_threshold = 16,
    path_start_end = [(0, 1)], committed_nodes = [0, 1, 2, 3],
    committed_index = [0, 1, 2, 3], committed_paths = [0, 0, - 1, - 1],
    chains = [(0, 2), (0, 0)], paths = [(0, 1)], changed_paths = [],
    changed_loops = [], is_invalid = False\<rparr>"
  by code_simp

lemma S_wf_nodes: "wf_nodes S_path_state"
  by (simp add: S_path_state_eq wf_nodes_def indexed_def chains_in_range_def
      All_less_Suc eval_nat_numeral)

theorem Commit_ChangePath_witness:
  "committed_state S_path_state \<and> wf_nodes S_path_state \<and> 0 < num_paths S_path_state \<and>
   chains_in_range (length (committed_nodes S_path_state)) S_chains \<and>
   length (committed_nodes (ChangePath 0 S_chains S_path_state))
     < num_nodes_threshold (ChangePath 0 S_chains S_path_state) \<and>
   commit_postcondition S_path_state 0 S_chains (Commit (ChangePath 0 S_chains S_path_state)) \<and>
   commit_postcondition S_path_state 0 S_chains (FullCommit (ChangePath 0 S_chains S_path_state)) \<and>
   Nodes (Commit (ChangePath 0 S_chains S_path_state)) 0 = [0, 2, 1] \<and>
   Nodes (FullCommit (ChangePath 0 S_chains S_path_state)) 0 = [0, 2, 1]"
proof -
  have c: "committed_state S_path_state"
    unfolding S_path_state_def by (rule PathState_init_committed)
  have p: "0 < num_paths S_path_state" by (simp add: S_path_state_eq)
  have r: "chains_in_range (length (committed_nodes S_path_state)) S_chains"
    by (simp add: S_path_state_eq S_chains_def chains_in_range_def)
  have th: "length (committed_nodes (ChangePath 0 S_chains S_path_state))
     < num_nodes_threshold (ChangePath 0 S_chains S_path_state)"
    by (simp add: S_path_state_eq ChangePath_def Let_def)
  have n: "concat (map (slice (committed_nodes S_path_state)) S_chains) = [0, 2, 1]"
    by (simp add: S_path_state_eq S_chains_def slice_def)
  note T = Commit_ChangePath_postcondition[OF c S_wf_nodes p r]
  have pc: "commit_postcondition S_path_state 0 S_chains
      (Commit (ChangePath 0 S_chains S_path_state))"
    using T by blast
  have pf: "commit_postcondition S_path_state 0 S_chains
      (FullCommit (ChangePath 0 S_chains S_path_state))"
    using T by blast
  have n1: "Nodes (Commit (ChangePath 0 S_chains S_path_state)) 0 = [0, 2, 1]"
    using pc unfolding commit_postcondition_def n by blast
  have n2: "Nodes (FullCommit (ChangePath 0 S_chains S_path_state)) 0 = [0, 2, 1]"
    using pf unfolding commit_postcondition_def n by blast
  show ?thesis
    using c S_wf_nodes p r th pc pf n1 n2 by blast
qed

text \<open>The claim as stated fails on the incremental branch: the copies of the changed path
  are appended to the committed nodes and the old copies stay, so the four nodes are indexed
  into seven positions, and the committed index is not onto them.\<close>

theorem Commit_incremental_not_bijection_counterexample:
  "length (committed_nodes (ChangePath 0 S_chains S_path_state))
     < num_nodes_threshold (ChangePath 0 S_chains S_path_state) \<and>
   num_nodes (Commit (ChangePath 0 S_chains S_path_state)) = 4 \<and>
   committed_nodes (Commit (ChangePath 0 S_chains S_path_state)) = [0, 1, 2, 3, 0, 2, 1] \<and>
   committed_index (Commit (ChangePath 0 S_chains S_path_state)) = [4, 6, 5, 3] \<and>
   \<not> bij_betw (\<lambda>n. nat (committed_index (Commit (ChangePath 0 S_chains S_path_state)) ! n))
       {..<num_nodes (Commit (ChangePath 0 S_chains S_path_state))}
       {..<length (committed_nodes (Commit (ChangePath 0 S_chains S_path_state)))}"
proof -
  have e: "length (committed_nodes (ChangePath 0 S_chains S_path_state))
     < num_nodes_threshold (ChangePath 0 S_chains S_path_state) \<and>
   num_nodes (Commit (ChangePath 0 S_chains S_path_state)) = 4 \<and>
   committed_nodes (Commit (ChangePath 0 S_chains S_path_state)) = [0, 1, 2, 3, 0, 2, 1] \<and>
   committed_index (Commit (ChangePath 0 S_chains S_path_state)) = [4, 6, 5, 3]"
    by code_simp
  have nb: "\<not> bij_betw (\<lambda>n. nat ([4, 6, 5, 3 :: int] ! n)) {..<4 :: nat}
      {..<length [0, 1, 2, 3, 0, 2, 1 :: nat]}"
  proof
    assume "bij_betw (\<lambda>n. nat ([4, 6, 5, 3 :: int] ! n)) {..<4 :: nat}
      {..<length [0, 1, 2, 3, 0, 2, 1 :: nat]}"
    then have "card {..<4 :: nat} = card {..<length [0, 1, 2, 3, 0, 2, 1 :: nat]}"
      by (rule bij_betw_same_card)
    then show False by simp
  qed
  from e have e2: "num_nodes (Commit (ChangePath 0 S_chains S_path_state)) = 4"
    and e3: "committed_nodes (Commit (ChangePath 0 S_chains S_path_state)) = [0, 1, 2, 3, 0, 2, 1]"
    and e4: "committed_index (Commit (ChangePath 0 S_chains S_path_state)) = [4, 6, 5, 3]"
    by blast+
  show ?thesis unfolding e2 e3 e4 using e nb by blast
qed


section \<open>DimensionChecker\<close>

definition kint64min :: int where "kint64min = - (2 ^ 63)"
definition kint64max :: int where "kint64max = 2 ^ 63 - 1"

text \<open>Modelled from the spec: \<open>CapAdd\<close> and \<open>CapSub\<close> are declared in the saturated
  arithmetic header, which is not among the sources: addition and subtraction on 64-bit
  signed integers, clamped to the saturation values.\<close>

definition CapAdd :: "int \<Rightarrow> int \<Rightarrow> int" where
  "CapAdd x y = max kint64min (min kint64max (x + y))"

definition CapSub :: "int \<Rightarrow> int \<Rightarrow> int" where
  "CapSub x y = max kint64min (min kint64max (x - y))"

text \<open>Modelled from the spec: \<open>MostSignificantBitPosition32\<close> is declared in the bit
  utilities, which are not among the sources: the position of the highest bit set, so that
  \<open>2 ^ layer\<close> is the largest window that fits in the range; 0 for 0.\<close>

fun MostSignificantBitPosition32 :: "nat \<Rightarrow> nat" where
  "MostSignificantBitPosition32 n =
     (if n < 2 then 0 else Suc (MostSignificantBitPosition32 (n div 2)))"

declare MostSignificantBitPosition32.simps [simp del]

record Interval =
  i_min :: int
  i_max :: int

record ExtendedInterval =
  e_min :: int
  e_max :: int
  num_negative_infinity :: int
  num_positive_infinity :: int

definition EInterval :: "int \<Rightarrow> int \<Rightarrow> int \<Rightarrow> int \<Rightarrow> ExtendedInterval" where
  "EInterval a b c d =
     \<lparr>e_min = a, e_max = b, num_negative_infinity = c, num_positive_infinity = d\<rparr>"

text \<open>\<open>operator&\<close>, \<open>IsEmpty\<close>, \<open>operator+\<close>, \<open>operator-\<close>, \<open>Delta\<close> and \<open>ToExtendedInterval\<close>.\<close>

definition inter :: "ExtendedInterval \<Rightarrow> ExtendedInterval \<Rightarrow> ExtendedInterval" where
  "inter i1 i2 =
     EInterval
       (max (if num_negative_infinity i1 = 0 then e_min i1 else kint64min)
            (if num_negative_infinity i2 = 0 then e_min i2 else kint64min))
       (min (if num_positive_infinity i1 = 0 then e_max i1 else kint64max)
            (if num_positive_infinity i2 = 0 then e_max i2 else kint64max))
       (min (num_negative_infinity i1) (num_negative_infinity i2))
       (min (num_positive_infinity i1) (num_positive_infinity i2))"

definition IsEmpty :: "ExtendedInterval \<Rightarrow> bool" where
  "IsEmpty interval =
     (let minimum_value = (if num_negative_infinity interval = 0 then e_min interval else kint64min);
          maximum_value = (if num_positive_infinity interval = 0 then e_max interval else kint64max)
      in minimum_value > maximum_value)"

definition eplus :: "ExtendedInterval \<Rightarrow> ExtendedInterval \<Rightarrow> ExtendedInterval" where
  "eplus i1 i2 =
     EInterval (CapAdd (e_min i1) (e_min i2)) (CapAdd (e_max i1) (e_max i2))
       (num_negative_infinity i1 + num_negative_infinity i2)
       (num_positive_infinity i1 + num_positive_infinity i2)"

definition eminus :: "ExtendedInterval \<Rightarrow> ExtendedInterval \<Rightarrow> ExtendedInterval" where
  "eminus i1 i2 =
     EInterval (CapSub (e_min i1) (e_max i2)) (CapSub (e_max i1) (e_min i2))
       (num_negative_infinity i1 + num_positive_infinity i2)
       (num_positive_infinity i1 + num_negative_infinity i2)"

definition Delta :: "ExtendedInterval \<Rightarrow> ExtendedInterval \<Rightarrow> ExtendedInterval" where
  "Delta from to =
     EInterval (CapSub (e_min to) (e_min from)) (CapSub (e_max to) (e_max from))
       (num_negative_infinity to - num_negative_infinity from)
       (num_positive_infinity to - num_positive_infinity from)"

definition ToExtendedInterval :: "Interval \<Rightarrow> ExtendedInterval" where
  "ToExtendedInterval interval =
     (let is_neg_infinity = (i_min interval = kint64min);
          is_pos_infinity = (i_max interval = kint64max)
      in EInterval (if is_neg_infinity then 0 else i_min interval)
           (if is_pos_infinity then 0 else i_max interval)
           (if is_neg_infinity then 1 else 0) (if is_pos_infinity then 1 else 0))"

record RIQNode =
  cumuls_to_fst :: ExtendedInterval
  tightest_tsum :: ExtendedInterval
  cumuls_to_lst :: ExtendedInterval
  tsum_at_fst :: ExtendedInterval
  tsum_at_lst :: ExtendedInterval

record DimensionChecker =
  path_capacity :: "ExtendedInterval list"
  path_class :: "int list"
  demand_per_path_class :: "int \<Rightarrow> nat \<Rightarrow> nat \<Rightarrow> Interval"
  node_capacity :: "ExtendedInterval list"
  index_of :: "nat list"
  riq :: "RIQNode list list"
  cached_demand :: "ExtendedInterval list"
  maximum_riq_layer_size :: nat
  min_range_size_for_riq :: int

definition UpdateCumulUsingChainRIQ ::
  "DimensionChecker \<Rightarrow> nat \<Rightarrow> nat \<Rightarrow> ExtendedInterval \<Rightarrow> ExtendedInterval \<Rightarrow> ExtendedInterval" where
  "UpdateCumulUsingChainRIQ dc first_index last_index path_cap cumul =
     (let layer = MostSignificantBitPosition32 (last_index - first_index);
          window = 2 ^ layer;
          fw = riq dc ! layer ! (first_index + window - 1);
          lw = riq dc ! layer ! last_index;
          cumul1 = inter cumul (cumuls_to_fst fw);
          cumul2 = inter cumul1 (eminus (cumuls_to_fst lw) (Delta (tsum_at_fst fw) (tsum_at_fst lw)));
          cumul3 = inter cumul2
            (eminus path_cap (Delta (tsum_at_fst fw) (inter (tightest_tsum fw) (tightest_tsum lw))))
      in if IsEmpty cumul3 then cumul3
         else
           let cumul4 = eplus cumul3 (Delta (tsum_at_fst fw) (tsum_at_lst lw));
               cumul5 = inter cumul4
                 (eplus (cumuls_to_lst fw) (Delta (tsum_at_lst fw) (tsum_at_lst lw)))
           in inter cumul5 (cumuls_to_lst lw))"

text \<open>The traversal of a chain node by node: \<open>None\<close> when the cumul becomes empty.\<close>

fun check_nodes ::
  "DimensionChecker \<Rightarrow> ExtendedInterval \<Rightarrow> int \<Rightarrow> bool \<Rightarrow> nat list \<Rightarrow> nat \<Rightarrow> ExtendedInterval
     \<Rightarrow> (nat \<times> ExtendedInterval) option" where
  "check_nodes dc path_cap pclass chain_is_cached [] prev_node cumul = Some (prev_node, cumul)"
| "check_nodes dc path_cap pclass chain_is_cached (node # nodes) prev_node cumul =
     (let demand = (if chain_is_cached then cached_demand dc ! prev_node
                    else ToExtendedInterval (demand_per_path_class dc pclass prev_node node));
          cumul1 = inter (inter (eplus cumul demand) (node_capacity dc ! node)) path_cap
      in if IsEmpty cumul1 then None
         else check_nodes dc path_cap pclass chain_is_cached nodes node cumul1)"

text \<open>The loop of \<open>Check\<close> over the chains of a path.\<close>

fun check_chains ::
  "DimensionChecker \<Rightarrow> PathState \<Rightarrow> ExtendedInterval \<Rightarrow> int \<Rightarrow> ChainBounds list \<Rightarrow> nat
     \<Rightarrow> ExtendedInterval \<Rightarrow> bool" where
  "check_chains dc ps path_cap pclass [] prev_node cumul = True"
| "check_chains dc ps path_cap pclass (chain # rest) prev_node cumul =
     (let first_node = committed_nodes ps ! fst chain;
          last_node = committed_nodes ps ! (snd chain - 1);
          cumul_at_first =
            (if prev_node \<noteq> first_node
             then inter (inter (eplus cumul
                      (ToExtendedInterval (demand_per_path_class dc pclass prev_node first_node)))
                    path_cap) (node_capacity dc ! first_node)
             else cumul)
      in if prev_node \<noteq> first_node \<and> IsEmpty cumul_at_first then False
         else
           let first_index = index_of dc ! first_node;
               last_index = index_of dc ! last_node;
               chain_path = Path ps first_node;
               chain_path_class = (if chain_path = - 1 then - 1 else path_class dc ! nat chain_path);
               chain_is_cached = (chain_path_class = pclass)
           in if int last_index - int first_index > min_range_size_for_riq dc \<and> chain_is_cached
              then
                let cumul_at_last =
                      UpdateCumulUsingChainRIQ dc first_index last_index path_cap cumul_at_first
                in if IsEmpty cumul_at_last then False
                   else check_chains dc ps path_cap pclass rest last_node cumul_at_last
              else
                (case check_nodes dc path_cap pclass chain_is_cached
                        (slice (committed_nodes ps) (fst chain + 1, snd chain))
                        first_node cumul_at_first of
                   None \<Rightarrow> False
                 | Some (prev_node', cumul') \<Rightarrow>
                     check_chains dc ps path_cap pclass rest prev_node' cumul'))"

definition check_path :: "DimensionChecker \<Rightarrow> PathState \<Rightarrow> nat \<Rightarrow> bool" where
  "check_path dc ps path =
     (let path_cap = path_capacity dc ! path;
          pclass = path_class dc ! path;
          prev_node = PathStart ps path;
          cumul = inter (node_capacity dc ! prev_node) path_cap
      in if IsEmpty cumul then False
         else check_chains dc ps path_cap pclass (Chains ps path) prev_node cumul)"

definition Check :: "DimensionChecker \<Rightarrow> PathState \<Rightarrow> bool" where
  "Check dc ps = (if IsInvalid ps then True else list_all (check_path dc ps) (ChangedPaths ps))"

text \<open>\<open>AppendPathDemandsToSums\<close>: the loop over the nodes of the path carries the previous
  node, the sum of the demands and the checker.\<close>

definition zero_interval :: ExtendedInterval where
  "zero_interval = EInterval 0 0 0 0"

definition append_node ::
  "int \<Rightarrow> nat \<Rightarrow> nat \<times> ExtendedInterval \<times> DimensionChecker \<Rightarrow> nat \<times> ExtendedInterval \<times> DimensionChecker" where
  "append_node pclass node st =
     (case st of (prev, demand_sum, dc) \<Rightarrow>
        let demand = (if prev = node then zero_interval
                      else ToExtendedInterval (demand_per_path_class dc pclass prev node));
            demand_sum' = eplus demand_sum demand
        in (node, demand_sum',
            dc\<lparr>cached_demand := (cached_demand dc)[prev := demand],
               index_of := (index_of dc)[node := length (riq dc ! 0)],
               riq := (riq dc)[0 := riq dc ! 0 @
                 [\<lparr>cumuls_to_fst = node_capacity dc ! node, tightest_tsum = demand_sum',
                   cumuls_to_lst = node_capacity dc ! node, tsum_at_fst = demand_sum',
                   tsum_at_lst = demand_sum'\<rparr>]]\<rparr>))"

definition AppendPathDemandsToSums :: "PathState \<Rightarrow> nat \<Rightarrow> DimensionChecker \<Rightarrow> DimensionChecker" where
  "AppendPathDemandsToSums ps path dc =
     (let pclass = path_class dc ! path;
          dc1 = snd (snd (fold (append_node pclass) (Nodes ps path)
                   (PathStart ps path, zero_interval, dc)))
      in dc1\<lparr>cached_demand := (cached_demand dc1)[PathEnd ps path := zero_interval]\<rparr>)"

text \<open>\<open>UpdateRIQStructure\<close>: the entry of a layer at index \<open>i\<close>, a layer, and the layers.\<close>

definition zero_node :: RIQNode where
  "zero_node = \<lparr>cumuls_to_fst = zero_interval, tightest_tsum = zero_interval,
     cumuls_to_lst = zero_interval, tsum_at_fst = zero_interval, tsum_at_lst = zero_interval\<rparr>"

definition riq_merge :: "RIQNode \<Rightarrow> RIQNode \<Rightarrow> RIQNode" where
  "riq_merge fw lw =
     (let lst_to_lst = Delta (tsum_at_lst fw) (tsum_at_lst lw);
          fst_to_fst = Delta (tsum_at_fst fw) (tsum_at_fst lw)
      in \<lparr>cumuls_to_fst = inter (cumuls_to_fst fw) (eminus (cumuls_to_fst lw) fst_to_fst),
          tightest_tsum = inter (tightest_tsum fw) (tightest_tsum lw),
          cumuls_to_lst = inter (eplus (cumuls_to_lst fw) lst_to_lst) (cumuls_to_lst lw),
          tsum_at_fst = tsum_at_fst fw,
          tsum_at_lst = tsum_at_lst lw\<rparr>)"

definition resize :: "nat \<Rightarrow> 'a \<Rightarrow> 'a list \<Rightarrow> 'a list" where
  "resize n d xs = take n xs @ replicate (n - length xs) d"

definition update_layer :: "nat \<Rightarrow> nat \<Rightarrow> nat \<Rightarrow> DimensionChecker \<Rightarrow> DimensionChecker" where
  "update_layer begin_index end_index layer dc =
     (let half_window = 2 ^ (layer - 1);
          below = riq dc ! (layer - 1);
          resized = resize end_index zero_node (riq dc ! layer);
          filled = fold (\<lambda>i l. l[i := riq_merge (below ! (i - half_window)) (below ! i)])
                     [begin_index + 2 * half_window - 1..<end_index] resized
      in dc\<lparr>riq := (riq dc)[layer := filled]\<rparr>)"

definition UpdateRIQStructure :: "nat \<Rightarrow> nat \<Rightarrow> DimensionChecker \<Rightarrow> DimensionChecker" where
  "UpdateRIQStructure begin_index end_index dc =
     (let max_layer = MostSignificantBitPosition32 (end_index - begin_index - 1)
      in fold (update_layer begin_index end_index) [1..<max_layer + 1] dc)"

definition commit_path :: "PathState \<Rightarrow> nat \<Rightarrow> DimensionChecker \<Rightarrow> DimensionChecker" where
  "commit_path ps path dc =
     (let begin_index = length (riq dc ! 0);
          dc1 = AppendPathDemandsToSums ps path dc
      in UpdateRIQStructure begin_index (length (riq dc1 ! 0)) dc1)"

definition DC_IncrementalCommit :: "PathState \<Rightarrow> DimensionChecker \<Rightarrow> DimensionChecker" where
  "DC_IncrementalCommit ps dc = fold (commit_path ps) (ChangedPaths ps) dc"

definition DC_FullCommit :: "PathState \<Rightarrow> DimensionChecker \<Rightarrow> DimensionChecker" where
  "DC_FullCommit ps dc =
     fold (commit_path ps) [0..<num_paths ps] (dc\<lparr>riq := map (\<lambda>layer. []) (riq dc)\<rparr>)"

definition DC_Commit :: "PathState \<Rightarrow> DimensionChecker \<Rightarrow> DimensionChecker" where
  "DC_Commit ps dc =
     (let current_layer_size = length (riq dc ! 0);
          change_size = length (ChangedPaths ps)
            + sum_list (map (\<lambda>path. sum_list (map (\<lambda>c. snd c - fst c) (Chains ps path)))
                 (ChangedPaths ps))
      in if current_layer_size + change_size \<le> maximum_riq_layer_size dc
         then DC_IncrementalCommit ps dc else DC_FullCommit ps dc)"

text \<open>The constructor.\<close>

definition DimensionChecker_init ::
  "PathState \<Rightarrow> Interval list \<Rightarrow> int list \<Rightarrow> (int \<Rightarrow> nat \<Rightarrow> nat \<Rightarrow> Interval) \<Rightarrow> Interval list \<Rightarrow> int
     \<Rightarrow> DimensionChecker" where
  "DimensionChecker_init ps path_cap pclass demand node_cap min_range =
     DC_FullCommit ps
       \<lparr>path_capacity = map ToExtendedInterval path_cap,
        path_class = pclass,
        demand_per_path_class = demand,
        node_capacity = map ToExtendedInterval node_cap,
        index_of = replicate (num_nodes ps) 0,
        riq = replicate (MostSignificantBitPosition32 (num_nodes ps) + 1) [],
        cached_demand = replicate (num_nodes ps) zero_interval,
        maximum_riq_layer_size = max 16 (4 * num_nodes ps),
        min_range_size_for_riq = min_range\<rparr>"

text \<open>Two vehicles of the same class, with capacities 100 and 12; nodes 0 and 1 are the
  start and end of the first, 2 and 3 of the second, and 4, 5, 6 are regular nodes.\<close>

definition X_demand :: "int \<Rightarrow> nat \<Rightarrow> nat \<Rightarrow> Interval" where
  "X_demand c u v =
     (if u = 4 \<and> v = 5 then \<lparr>i_min = 0, i_max = 10\<rparr>
      else if u = 5 \<and> v = 6 then \<lparr>i_min = 5, i_max = 5\<rparr>
      else if u = 6 then \<lparr>i_min = - 10, i_max = - 10\<rparr>
      else \<lparr>i_min = 0, i_max = 0\<rparr>)"

definition X_node_capacity :: "Interval list" where
  "X_node_capacity = [\<lparr>i_min = 0, i_max = 0\<rparr>, \<lparr>i_min = 0, i_max = 100\<rparr>,
     \<lparr>i_min = 0, i_max = 0\<rparr>, \<lparr>i_min = 0, i_max = 100\<rparr>, \<lparr>i_min = 0, i_max = 100\<rparr>,
     \<lparr>i_min = 10, i_max = 100\<rparr>, \<lparr>i_min = 0, i_max = 100\<rparr>]"

definition X_path_capacity :: "Interval list" where
  "X_path_capacity = [\<lparr>i_min = 0, i_max = 100\<rparr>, \<lparr>i_min = 0, i_max = 12\<rparr>]"

definition X_committed :: PathState where
  "X_committed = Commit (ChangePath 0 [(0, 1), (4, 7), (1, 2)] (PathState_init 7 [0, 2] [1, 3]))"

definition X_neighbor :: PathState where
  "X_neighbor = ChangePath 1 [(2, 3), (8, 11), (3, 4)] (ChangePath 0 [(7, 8), (11, 12)] X_committed)"

definition X_checker :: "int \<Rightarrow> DimensionChecker" where
  "X_checker min_range =
     DimensionChecker_init X_committed X_path_capacity [0, 0] X_demand X_node_capacity min_range"

subsection \<open>The invalid flag\<close>

lemma is_invalid_apply_change:
  "is_invalid s \<Longrightarrow> is_invalid (apply_change c s)"
  by (cases c) (simp_all add: ChangePath_def ChangeLoops_def SetInvalid_def Let_def)

lemma is_invalid_apply_changes:
  "is_invalid s \<Longrightarrow> is_invalid (fold apply_change cs s)"
  by (induction cs arbitrary: s) (simp_all add: is_invalid_apply_change)

text \<open>C6. After \<open>SetInvalid\<close>, whatever \<open>ChangePath\<close>, \<open>ChangeLoops\<close> and \<open>SetInvalid\<close> calls
  follow, \<open>IsInvalid\<close> is true and \<open>Check\<close> returns true, whatever the checker and the changed
  paths; \<open>Revert\<close> clears the flag.\<close>

theorem SetInvalid_sticky_Check_accepts:
  "IsInvalid (fold apply_change cs (SetInvalid s)) \<and>
   Check dc (fold apply_change cs (SetInvalid s)) \<and>
   \<not> IsInvalid (Revert (fold apply_change cs (SetInvalid s)))"
proof -
  have "is_invalid (SetInvalid s)" by (simp add: SetInvalid_def)
  then have "is_invalid (fold apply_change cs (SetInvalid s))"
    by (rule is_invalid_apply_changes)
  then show ?thesis by (simp add: IsInvalid_def Check_def Revert_def)
qed

theorem SetInvalid_sticky_witness:
  "IsInvalid (fold apply_change S_changes (SetInvalid S_path_state)) \<and>
   Check (X_checker 0) (fold apply_change S_changes (SetInvalid S_path_state)) \<and>
   \<not> IsInvalid (Revert (fold apply_change S_changes (SetInvalid S_path_state)))"
  by (rule SetInvalid_sticky_Check_accepts)

subsection \<open>The range intersection query against the traversal\<close>

text \<open>C1. The committed paths are 0, 4, 5, 6, 1 and 2, 3; the neighbor moves the chain 4, 5, 6
  to the second vehicle. On the second vehicle the cumul is 0 at node 4, at least 10 at node
  5 (its capacity) and so at least 15 at node 6, above the path capacity 12: the traversal
  node by node rejects the neighbor. With the table used for chains of more than 0 arcs the
  checker accepts it: the query bounds the cumul at the first node of the chain and
  intersects the cumul at the last node with node capacities only, and the arc to the end
  brings the cumul back under the path capacity. The two checkers differ in
  \<open>min_range_size_for_riq\<close> only, and both accept the committed paths proposed again.\<close>

theorem Check_depends_on_min_range_size_for_riq:
  "Nodes X_neighbor 0 = [0, 1] \<and> Nodes X_neighbor 1 = [2, 4, 5, 6, 3] \<and>
   Check (X_checker 0) X_neighbor \<and>
   \<not> Check (X_checker 2) X_neighbor \<and>
   Check (X_checker 0) (ChangePath 0 [(7, 12)] X_committed) \<and>
   Check (X_checker 4) (ChangePath 0 [(7, 12)] X_committed)"
  by code_simp


section \<open>NodeDisjunctionFilter\<close>

text \<open>Modelled from the spec: \<open>CapProd\<close> is declared in the saturated arithmetic header,
  which is not among the sources: the product of 64-bit signed integers, clamped to the
  saturation values.\<close>

definition CapProd :: "int \<Rightarrow> int \<Rightarrow> int" where
  "CapProd x y = max kint64min (min kint64max (x * y))"

text \<open>Modelled from the spec: \<open>CommittableVector\<close> is declared in a header that is not among
  the sources: an array with revertible edits by index and the list of the changed indices,
  in the order of their first change.\<close>

record 'a CommittableVector =
  committed_values :: "'a list"
  current_values :: "'a list"
  changed_indices :: "nat list"

definition cv_Get :: "'a CommittableVector \<Rightarrow> nat \<Rightarrow> 'a" where
  "cv_Get v i = current_values v ! i"

definition cv_GetCommitted :: "'a CommittableVector \<Rightarrow> nat \<Rightarrow> 'a" where
  "cv_GetCommitted v i = committed_values v ! i"

definition cv_Set :: "nat \<Rightarrow> 'a \<Rightarrow> 'a CommittableVector \<Rightarrow> 'a CommittableVector" where
  "cv_Set i x v =
     v\<lparr>current_values := (current_values v)[i := x],
       changed_indices := (if i \<in> set (changed_indices v) then changed_indices v
                           else changed_indices v @ [i])\<rparr>"

definition cv_Revert :: "'a CommittableVector \<Rightarrow> 'a CommittableVector" where
  "cv_Revert v = v\<lparr>current_values := committed_values v, changed_indices := []\<rparr>"

definition cv_Commit :: "'a CommittableVector \<Rightarrow> 'a CommittableVector" where
  "cv_Commit v = v\<lparr>committed_values := current_values v, changed_indices := []\<rparr>"

definition ChangedIndices :: "'a CommittableVector \<Rightarrow> nat list" where
  "ChangedIndices v = changed_indices v"

record ActivityCount =
  active :: int
  inactive :: int

datatype PenaltyCostBehavior = PENALIZE_ONCE | PENALIZE_PER_INACTIVE

text \<open>The accessors of the routing model the filter reads.\<close>

record DisjunctionModel =
  GetNumberOfDisjunctions :: nat
  GetDisjunctionIndices :: "nat \<Rightarrow> nat list"
  GetDisjunctionNodeIndices :: "nat \<Rightarrow> nat list"
  GetDisjunctionMaxCardinality :: "nat \<Rightarrow> int"
  GetDisjunctionPenalty :: "nat \<Rightarrow> int"
  GetDisjunctionPenaltyCostBehavior :: "nat \<Rightarrow> PenaltyCostBehavior"

record NodeDisjunctionFilter =
  count_per_disjunction :: "ActivityCount CommittableVector"
  synchronized_objective_value :: int
  accepted_objective_value :: int
  filter_cost :: bool
  has_mandatory_disjunctions :: bool

text \<open>The first loop of \<open>Accept\<close>, over the elements of the delta: it carries \<open>lns_detected\<close>
  and the counts.\<close>

definition of_bool_int :: "bool \<Rightarrow> int" where
  "of_bool_int b = (if b then 1 else 0)"

definition add_to_count ::
  "int \<Rightarrow> int \<Rightarrow> nat \<Rightarrow> ActivityCount CommittableVector \<Rightarrow> ActivityCount CommittableVector" where
  "add_to_count delta_active delta_inactive disjunction cv =
     cv_Set disjunction
       \<lparr>active = active (cv_Get cv disjunction) + delta_active,
        inactive = inactive (cv_Get cv disjunction) + delta_inactive\<rparr> cv"

definition count_element ::
  "DisjunctionModel \<Rightarrow> (nat \<Rightarrow> nat option) \<Rightarrow> (nat \<Rightarrow> bool) \<Rightarrow> (nat \<Rightarrow> int) \<Rightarrow> IntVarElement
     \<Rightarrow> bool \<times> ActivityCount CommittableVector \<Rightarrow> bool \<times> ActivityCount CommittableVector" where
  "count_element m FindIndex IsVarSynced Value element st =
     (case FindIndex (Var element) of
        None \<Rightarrow> st
      | Some node \<Rightarrow>
          let lns_detected = (fst st \<or> Min_e element \<noteq> Max_e element);
              is_var_synced = IsVarSynced node;
              was_active = (is_var_synced \<and> Value node \<noteq> int node);
              is_active = (int node < Min_e element \<or> Max_e element < int node);
              delta_active = (if is_var_synced then - of_bool_int was_active else 0)
                               + of_bool_int is_active;
              delta_inactive = (if is_var_synced then - of_bool_int (\<not> was_active) else 0)
                               + of_bool_int (\<not> is_active)
          in if delta_active = 0 \<and> delta_inactive = 0 then (lns_detected, snd st)
             else (lns_detected,
                   fold (add_to_count delta_active delta_inactive)
                     (GetDisjunctionIndices m node) (snd st)))"

text \<open>The violation of the activity bound, as the last loop of \<open>Accept\<close> computes it.\<close>

definition accept_violation :: "DisjunctionModel \<Rightarrow> nat \<Rightarrow> int \<Rightarrow> int" where
  "accept_violation m disjunction inactives =
     (let max_inactives = int (length (GetDisjunctionNodeIndices m disjunction))
                            - GetDisjunctionMaxCardinality m disjunction
      in max 0 (inactives - max_inactives))"

text \<open>The last loop of \<open>Accept\<close>, over the changed indices: the accepted objective value, and
  whether the loop ran to its end (it returns false at a mandatory disjunction that is
  violated).\<close>

fun penalty_loop ::
  "DisjunctionModel \<Rightarrow> ActivityCount CommittableVector \<Rightarrow> nat list \<Rightarrow> int \<Rightarrow> bool \<times> int" where
  "penalty_loop m cv [] accepted = (True, accepted)"
| "penalty_loop m cv (index # rest) accepted =
     (let old_inactives = inactive (cv_GetCommitted cv index);
          new_inactives = inactive (cv_Get cv index)
      in if old_inactives = new_inactives then penalty_loop m cv rest accepted
         else
           let penalty = GetDisjunctionPenalty m index
           in if penalty = 0 then penalty_loop m cv rest accepted
              else
                let new_violation = accept_violation m index new_inactives;
                    old_violation = accept_violation m index old_inactives
                in if penalty < 0 \<and> new_violation > 0 then (False, accepted)
                   else
                     let once = (GetDisjunctionPenaltyCostBehavior m index = PENALIZE_ONCE);
                         new_violation' = (if once then min 1 new_violation else new_violation);
                         old_violation' = (if once then min 1 old_violation else old_violation)
                     in penalty_loop m cv rest
                          (CapAdd (CapProd penalty (new_violation' - old_violation')) accepted))"

definition NodeDisjunction_Accept ::
  "DisjunctionModel \<Rightarrow> (nat \<Rightarrow> nat option) \<Rightarrow> (nat \<Rightarrow> bool) \<Rightarrow> (nat \<Rightarrow> int) \<Rightarrow> NodeDisjunctionFilter
     \<Rightarrow> IntVarElement list \<Rightarrow> int \<Rightarrow> bool \<times> NodeDisjunctionFilter" where
  "NodeDisjunction_Accept m FindIndex IsVarSynced Value f delta objective_max =
     (let st = fold (count_element m FindIndex IsVarSynced Value) delta
                 (False, cv_Revert (count_per_disjunction f));
          lns_detected = fst st;
          f1 = f\<lparr>count_per_disjunction := snd st\<rparr>
      in if list_ex (\<lambda>index. active (cv_Get (snd st) index) > GetDisjunctionMaxCardinality m index)
              (ChangedIndices (snd st))
         then (False, f1)
         else if lns_detected \<or> (\<not> filter_cost f \<and> \<not> has_mandatory_disjunctions f)
         then (True, f1\<lparr>accepted_objective_value := 0\<rparr>)
         else
           (case penalty_loop m (snd st) (ChangedIndices (snd st)) (synchronized_objective_value f) of
              (False, accepted) \<Rightarrow> (False, f1\<lparr>accepted_objective_value := accepted\<rparr>)
            | (True, accepted) \<Rightarrow>
                (accepted \<le> objective_max, f1\<lparr>accepted_objective_value := accepted\<rparr>)))"

text \<open>\<open>OnSynchronize\<close>: the count of a disjunction, the penalty it adds, and the loop over the
  disjunctions.\<close>

definition sync_count :: "(nat \<Rightarrow> bool) \<Rightarrow> (nat \<Rightarrow> int) \<Rightarrow> nat list \<Rightarrow> ActivityCount" where
  "sync_count IsVarSynced Value nodes =
     fold (\<lambda>node count.
             if \<not> IsVarSynced node then count
             else let is_active = of_bool_int (Value node \<noteq> int node)
                  in \<lparr>active = active count + is_active,
                      inactive = inactive count + (1 - is_active)\<rparr>)
       nodes \<lparr>active = 0, inactive = 0\<rparr>"

definition sync_disjunction ::
  "DisjunctionModel \<Rightarrow> (nat \<Rightarrow> bool) \<Rightarrow> (nat \<Rightarrow> int) \<Rightarrow> nat \<Rightarrow> NodeDisjunctionFilter
     \<Rightarrow> NodeDisjunctionFilter" where
  "sync_disjunction m IsVarSynced Value disjunction f =
     (let nodes = GetDisjunctionNodeIndices m disjunction;
          count = sync_count IsVarSynced Value nodes;
          f1 = f\<lparr>count_per_disjunction := cv_Set disjunction count (count_per_disjunction f)\<rparr>
      in if \<not> filter_cost f then f1
         else
           let penalty = GetDisjunctionPenalty m disjunction;
               max_actives = GetDisjunctionMaxCardinality m disjunction;
               violation = inactive count - (int (length nodes) - max_actives)
           in if violation > 0 \<and> penalty > 0
              then
                let violation' = (if GetDisjunctionPenaltyCostBehavior m disjunction = PENALIZE_ONCE
                                  then min 1 violation else violation)
                in f1\<lparr>synchronized_objective_value :=
                        CapAdd (CapProd penalty violation') (synchronized_objective_value f1)\<rparr>
              else f1)"

definition NodeDisjunction_OnSynchronize ::
  "DisjunctionModel \<Rightarrow> (nat \<Rightarrow> bool) \<Rightarrow> (nat \<Rightarrow> int) \<Rightarrow> NodeDisjunctionFilter \<Rightarrow> NodeDisjunctionFilter" where
  "NodeDisjunction_OnSynchronize m IsVarSynced Value f =
     (let f0 = f\<lparr>synchronized_objective_value := 0,
                 count_per_disjunction := cv_Revert (count_per_disjunction f)\<rparr>;
          f1 = fold (sync_disjunction m IsVarSynced Value) [0..<GetNumberOfDisjunctions m] f0
      in f1\<lparr>count_per_disjunction := cv_Commit (count_per_disjunction f1),
            accepted_objective_value := synchronized_objective_value f1\<rparr>)"

text \<open>The constructor.\<close>

definition NodeDisjunctionFilter_init :: "DisjunctionModel \<Rightarrow> bool \<Rightarrow> bool \<Rightarrow> NodeDisjunctionFilter" where
  "NodeDisjunctionFilter_init m cost mandatory =
     \<lparr>count_per_disjunction =
        \<lparr>committed_values = replicate (GetNumberOfDisjunctions m) \<lparr>active = 0, inactive = 0\<rparr>,
         current_values = replicate (GetNumberOfDisjunctions m) \<lparr>active = 0, inactive = 0\<rparr>,
         changed_indices = []\<rparr>,
      synchronized_objective_value = kint64min,
      accepted_objective_value = kint64min,
      filter_cost = cost, has_mandatory_disjunctions = mandatory\<rparr>"

text \<open>Scenario S2 of the specification: the nodes 3, 4, 5 are one disjunction of maximum
  cardinality 1 and penalty 7; node 3 is active and nodes 4 and 5 are not.\<close>

definition S2_model :: DisjunctionModel where
  "S2_model = \<lparr>GetNumberOfDisjunctions = 1,
     GetDisjunctionIndices = (\<lambda>node. if 3 \<le> node \<and> node \<le> 5 then [0] else []),
     GetDisjunctionNodeIndices = (\<lambda>d. [3, 4, 5]),
     GetDisjunctionMaxCardinality = (\<lambda>d. 1),
     GetDisjunctionPenalty = (\<lambda>d. 7),
     GetDisjunctionPenaltyCostBehavior = (\<lambda>d. PENALIZE_PER_INACTIVE)\<rparr>"

definition S2_FindIndex :: "nat \<Rightarrow> nat option" where
  "S2_FindIndex v = (if v < 8 then Some v else None)"

definition S2_Value :: "nat \<Rightarrow> int" where
  "S2_Value i = (if i = 3 then 9 else int i)"

definition S2_filter :: "bool \<Rightarrow> NodeDisjunctionFilter" where
  "S2_filter cost =
     NodeDisjunction_OnSynchronize S2_model (\<lambda>i. True) S2_Value
       (NodeDisjunctionFilter_init S2_model cost False)"

subsection \<open>The penalty of a disjunction\<close>

text \<open>The specification's penalty of a disjunction with a given number of inactive nodes:
  the penalty times the violation \<open>max(0, inactive - (size - max_cardinality))\<close>, the
  violation being clamped to 1 under \<open>PENALIZE_ONCE\<close>.\<close>

definition violation_term :: "PenaltyCostBehavior \<Rightarrow> int \<Rightarrow> int \<Rightarrow> int \<Rightarrow> int" where
  "violation_term behavior inactives size_of max_cardinality =
     (let violation = max 0 (inactives - (size_of - max_cardinality))
      in case behavior of PENALIZE_ONCE \<Rightarrow> min 1 violation | PENALIZE_PER_INACTIVE \<Rightarrow> violation)"

definition disjunction_penalty :: "DisjunctionModel \<Rightarrow> nat \<Rightarrow> int \<Rightarrow> int" where
  "disjunction_penalty m d inactives =
     GetDisjunctionPenalty m d *
       violation_term (GetDisjunctionPenaltyCostBehavior m d) inactives
         (int (length (GetDisjunctionNodeIndices m d))) (GetDisjunctionMaxCardinality m d)"

text \<open>No sum saturates: every term and every partial sum is a 64-bit signed integer.\<close>

definition in_range :: "int \<Rightarrow> bool" where
  "in_range x = (kint64min \<le> x \<and> x \<le> kint64max)"

fun sums_in_range :: "int \<Rightarrow> int list \<Rightarrow> bool" where
  "sums_in_range acc [] = True"
| "sums_in_range acc (t # ts) = (in_range t \<and> in_range (t + acc) \<and> sums_in_range (t + acc) ts)"

lemma CapAdd_exact: "in_range (x + y) \<Longrightarrow> CapAdd x y = x + y"
  by (simp add: CapAdd_def in_range_def)

lemma CapProd_exact: "in_range (x * y) \<Longrightarrow> CapProd x y = x * y"
  by (simp add: CapProd_def in_range_def)

text \<open>What a changed disjunction adds to the accepted objective value.\<close>

definition penalty_change :: "DisjunctionModel \<Rightarrow> ActivityCount CommittableVector \<Rightarrow> nat \<Rightarrow> int" where
  "penalty_change m cv d =
     disjunction_penalty m d (inactive (cv_Get cv d))
       - disjunction_penalty m d (inactive (cv_GetCommitted cv d))"

lemma accept_violation_term:
  "(if GetDisjunctionPenaltyCostBehavior m d = PENALIZE_ONCE
    then min 1 (accept_violation m d n) else accept_violation m d n) =
   violation_term (GetDisjunctionPenaltyCostBehavior m d) n
     (int (length (GetDisjunctionNodeIndices m d))) (GetDisjunctionMaxCardinality m d)"
  by (cases "GetDisjunctionPenaltyCostBehavior m d")
     (simp_all add: accept_violation_def violation_term_def Let_def)

lemma penalty_loop_step:
  assumes "0 \<le> GetDisjunctionPenalty m d" "in_range (penalty_change m cv d)"
    "in_range (penalty_change m cv d + acc)"
  shows "penalty_loop m cv (d # ds) acc = penalty_loop m cv ds (penalty_change m cv d + acc)"
proof (cases "inactive (cv_GetCommitted cv d) = inactive (cv_Get cv d)")
  case True
  then show ?thesis by (simp add: penalty_change_def)
next
  case False
  show ?thesis
  proof (cases "GetDisjunctionPenalty m d = 0")
    case True
    then show ?thesis using False by (simp add: penalty_change_def disjunction_penalty_def)
  next
    case nz: False
    have pc: "penalty_change m cv d =
        GetDisjunctionPenalty m d *
          ((if GetDisjunctionPenaltyCostBehavior m d = PENALIZE_ONCE
            then min 1 (accept_violation m d (inactive (cv_Get cv d)))
            else accept_violation m d (inactive (cv_Get cv d)))
           - (if GetDisjunctionPenaltyCostBehavior m d = PENALIZE_ONCE
              then min 1 (accept_violation m d (inactive (cv_GetCommitted cv d)))
              else accept_violation m d (inactive (cv_GetCommitted cv d))))"
      unfolding accept_violation_term
      by (simp add: penalty_change_def disjunction_penalty_def right_diff_distrib)
    have "CapAdd (CapProd (GetDisjunctionPenalty m d)
          ((if GetDisjunctionPenaltyCostBehavior m d = PENALIZE_ONCE
            then min 1 (accept_violation m d (inactive (cv_Get cv d)))
            else accept_violation m d (inactive (cv_Get cv d)))
           - (if GetDisjunctionPenaltyCostBehavior m d = PENALIZE_ONCE
              then min 1 (accept_violation m d (inactive (cv_GetCommitted cv d)))
              else accept_violation m d (inactive (cv_GetCommitted cv d))))) acc
        = penalty_change m cv d + acc"
      using assms(2,3) by (simp add: pc[symmetric] CapProd_exact CapAdd_exact)
    then show ?thesis
      using False nz assms(1) by (simp add: Let_def)
  qed
qed

lemma penalty_loop_sum:
  "list_all (\<lambda>d. 0 \<le> GetDisjunctionPenalty m d) ds \<Longrightarrow>
   sums_in_range acc (map (penalty_change m cv) ds) \<Longrightarrow>
   penalty_loop m cv ds acc = (True, acc + sum_list (map (penalty_change m cv) ds))"
proof (induction ds arbitrary: acc)
  case Nil
  then show ?case by simp
next
  case (Cons d ds)
  have "penalty_loop m cv (d # ds) acc = penalty_loop m cv ds (penalty_change m cv d + acc)"
    using Cons.prems by (intro penalty_loop_step) simp_all
  also have "\<dots> = (True, penalty_change m cv d + acc + sum_list (map (penalty_change m cv) ds))"
    using Cons.prems by (intro Cons.IH) simp_all
  finally show ?case by (simp add: add.commute add.left_commute)
qed

text \<open>The counts after the delta, and whether the delta has an element of the filter's
  variables that is not bound.\<close>

definition counts_after ::
  "DisjunctionModel \<Rightarrow> (nat \<Rightarrow> nat option) \<Rightarrow> (nat \<Rightarrow> bool) \<Rightarrow> (nat \<Rightarrow> int) \<Rightarrow> NodeDisjunctionFilter
     \<Rightarrow> IntVarElement list \<Rightarrow> ActivityCount CommittableVector" where
  "counts_after m FindIndex IsVarSynced Value f delta =
     snd (fold (count_element m FindIndex IsVarSynced Value) delta
            (False, cv_Revert (count_per_disjunction f)))"

definition has_unbound_element :: "(nat \<Rightarrow> nat option) \<Rightarrow> IntVarElement list \<Rightarrow> bool" where
  "has_unbound_element FindIndex delta =
     list_ex (\<lambda>e. FindIndex (Var e) \<noteq> None \<and> \<not> Bound e) delta"

lemma count_element_lns:
  "fst (count_element m FindIndex IsVarSynced Value e st) =
     (fst st \<or> (FindIndex (Var e) \<noteq> None \<and> \<not> Bound e))"
  by (auto simp: count_element_def Let_def Bound_def split: option.splits)

lemma fold_count_element_lns:
  "fst (fold (count_element m FindIndex IsVarSynced Value) delta st) =
     (fst st \<or> has_unbound_element FindIndex delta)"
proof (induction delta arbitrary: st)
  case Nil
  then show ?case by (simp add: has_unbound_element_def)
next
  case (Cons e es)
  show ?case
    using Cons.IH[of "count_element m FindIndex IsVarSynced Value e st"]
    by (auto simp: count_element_lns has_unbound_element_def)
qed

text \<open>The sum \<open>OnSynchronize\<close> computes.\<close>

definition synchronized_penalty ::
  "DisjunctionModel \<Rightarrow> (nat \<Rightarrow> bool) \<Rightarrow> (nat \<Rightarrow> int) \<Rightarrow> nat \<Rightarrow> int" where
  "synchronized_penalty m IsVarSynced Value d =
     (if GetDisjunctionPenalty m d > 0
      then disjunction_penalty m d
             (inactive (sync_count IsVarSynced Value (GetDisjunctionNodeIndices m d)))
      else 0)"

lemma sync_disjunction_value:
  assumes "filter_cost f" "in_range (synchronized_penalty m IsVarSynced Value d)"
    "in_range (synchronized_penalty m IsVarSynced Value d + synchronized_objective_value f)"
  shows "synchronized_objective_value (sync_disjunction m IsVarSynced Value d f) =
      synchronized_penalty m IsVarSynced Value d + synchronized_objective_value f"
    and "filter_cost (sync_disjunction m IsVarSynced Value d f)"
proof -
  define count where "count = sync_count IsVarSynced Value (GetDisjunctionNodeIndices m d)"
  define violation where "violation = inactive count
      - (int (length (GetDisjunctionNodeIndices m d)) - GetDisjunctionMaxCardinality m d)"
  show "filter_cost (sync_disjunction m IsVarSynced Value d f)"
    using assms(1) by (simp add: sync_disjunction_def Let_def)
  show "synchronized_objective_value (sync_disjunction m IsVarSynced Value d f) =
      synchronized_penalty m IsVarSynced Value d + synchronized_objective_value f"
  proof (cases "violation > 0 \<and> GetDisjunctionPenalty m d > 0")
    case False
    then have "synchronized_penalty m IsVarSynced Value d = 0"
      by (cases "GetDisjunctionPenaltyCostBehavior m d")
         (auto simp: synchronized_penalty_def disjunction_penalty_def violation_term_def
            violation_def count_def Let_def)
    then show ?thesis
      using False assms(1)
      by (auto simp: sync_disjunction_def Let_def violation_def count_def)
  next
    case True
    have sp: "synchronized_penalty m IsVarSynced Value d =
        GetDisjunctionPenalty m d *
          (if GetDisjunctionPenaltyCostBehavior m d = PENALIZE_ONCE
           then min 1 violation else violation)"
      using True
      by (cases "GetDisjunctionPenaltyCostBehavior m d")
         (auto simp: synchronized_penalty_def disjunction_penalty_def violation_term_def
            violation_def count_def Let_def)
    have cap: "CapAdd (CapProd (GetDisjunctionPenalty m d)
          (if GetDisjunctionPenaltyCostBehavior m d = PENALIZE_ONCE
           then min 1 violation else violation)) (synchronized_objective_value f)
        = synchronized_penalty m IsVarSynced Value d + synchronized_objective_value f"
      using assms(2,3) by (simp add: sp[symmetric] CapProd_exact CapAdd_exact)
    have sd: "synchronized_objective_value (sync_disjunction m IsVarSynced Value d f) =
        CapAdd (CapProd (GetDisjunctionPenalty m d)
          (if GetDisjunctionPenaltyCostBehavior m d = PENALIZE_ONCE
           then min 1 violation else violation)) (synchronized_objective_value f)"
      using True assms(1)
      unfolding sync_disjunction_def Let_def violation_def count_def by simp
    show ?thesis unfolding sd by (rule cap)
  qed
qed

lemma sync_fold_value:
  "filter_cost f \<Longrightarrow>
   sums_in_range (synchronized_objective_value f) (map (synchronized_penalty m IsVarSynced Value) ds) \<Longrightarrow>
   synchronized_objective_value (fold (sync_disjunction m IsVarSynced Value) ds f) =
     synchronized_objective_value f + sum_list (map (synchronized_penalty m IsVarSynced Value) ds)"
proof (induction ds arbitrary: f)
  case Nil
  then show ?case by simp
next
  case (Cons d ds)
  have v: "synchronized_objective_value (sync_disjunction m IsVarSynced Value d f) =
      synchronized_penalty m IsVarSynced Value d + synchronized_objective_value f"
    and c: "filter_cost (sync_disjunction m IsVarSynced Value d f)"
    using Cons.prems by (simp_all add: sync_disjunction_value)
  have "synchronized_objective_value
      (fold (sync_disjunction m IsVarSynced Value) ds (sync_disjunction m IsVarSynced Value d f)) =
     synchronized_objective_value (sync_disjunction m IsVarSynced Value d f)
       + sum_list (map (synchronized_penalty m IsVarSynced Value) ds)"
    using c by (rule Cons.IH) (use Cons.prems v in simp)
  then show ?case by (simp add: v)
qed


text \<open>The counts \<open>OnSynchronize\<close> commits.\<close>

lemma sync_disjunction_counts:
  "current_values (count_per_disjunction (sync_disjunction m IsVarSynced Value d f)) =
     (current_values (count_per_disjunction f))
       [d := sync_count IsVarSynced Value (GetDisjunctionNodeIndices m d)]"
  by (simp add: sync_disjunction_def Let_def cv_Set_def)

lemma sync_fold_counts:
  "d < length (current_values (count_per_disjunction f)) \<Longrightarrow>
   current_values (count_per_disjunction (fold (sync_disjunction m IsVarSynced Value) ds f)) ! d =
     (if d \<in> set ds then sync_count IsVarSynced Value (GetDisjunctionNodeIndices m d)
      else current_values (count_per_disjunction f) ! d)"
proof (induction ds arbitrary: f)
  case Nil
  then show ?case by simp
next
  case (Cons e ds)
  have len: "d < length (current_values (count_per_disjunction
      (sync_disjunction m IsVarSynced Value e f)))"
    using Cons.prems by (simp add: sync_disjunction_counts)
  show ?case
    using Cons.IH[OF len] Cons.prems
    by (auto simp: sync_disjunction_counts)
qed

lemma add_to_count_committed:
  "committed_values (fold (add_to_count a b) ds cv) = committed_values cv"
  by (induction ds arbitrary: cv) (simp_all add: add_to_count_def cv_Set_def)

lemma count_element_committed:
  "committed_values (snd (count_element m FindIndex IsVarSynced Value e st)) =
     committed_values (snd st)"
  by (simp add: count_element_def Let_def add_to_count_committed split: option.splits)

lemma counts_after_committed:
  "committed_values (counts_after m FindIndex IsVarSynced Value f delta) =
     committed_values (count_per_disjunction f)"
proof -
  have "\<And>st. committed_values (snd (fold (count_element m FindIndex IsVarSynced Value) delta st))
      = committed_values (snd st)"
    subgoal for st
      by (induction delta arbitrary: st) (simp_all add: count_element_committed)
    done
  then show ?thesis by (simp add: counts_after_def cv_Revert_def)
qed

lemma OnSynchronize_committed:
  assumes "d < GetNumberOfDisjunctions m"
    "GetNumberOfDisjunctions m \<le> length (committed_values (count_per_disjunction f0))"
  shows "cv_GetCommitted (count_per_disjunction (NodeDisjunction_OnSynchronize m IsVarSynced Value f0)) d
    = sync_count IsVarSynced Value (GetDisjunctionNodeIndices m d)"
proof -
  define g where "g = f0\<lparr>synchronized_objective_value := 0,
                 count_per_disjunction := cv_Revert (count_per_disjunction f0)\<rparr>"
  have "d < length (current_values (count_per_disjunction g))"
    using assms by (simp add: g_def cv_Revert_def)
  then have "current_values (count_per_disjunction
      (fold (sync_disjunction m IsVarSynced Value) [0..<GetNumberOfDisjunctions m] g)) ! d =
     (if d \<in> set [0..<GetNumberOfDisjunctions m]
      then sync_count IsVarSynced Value (GetDisjunctionNodeIndices m d)
      else current_values (count_per_disjunction g) ! d)"
    by (rule sync_fold_counts)
  then show ?thesis
    using assms(1)
    by (simp add: NodeDisjunction_OnSynchronize_def Let_def g_def[symmetric] cv_GetCommitted_def
        cv_Commit_def)
qed

lemma OnSynchronize_value:
  assumes "filter_cost f0"
    "sums_in_range 0 (map (synchronized_penalty m IsVarSynced Value) [0..<GetNumberOfDisjunctions m])"
  shows "synchronized_objective_value (NodeDisjunction_OnSynchronize m IsVarSynced Value f0) =
      sum_list (map (synchronized_penalty m IsVarSynced Value) [0..<GetNumberOfDisjunctions m])"
    and "accepted_objective_value (NodeDisjunction_OnSynchronize m IsVarSynced Value f0) =
      synchronized_objective_value (NodeDisjunction_OnSynchronize m IsVarSynced Value f0)"
    and "filter_cost (NodeDisjunction_OnSynchronize m IsVarSynced Value f0)"
proof -
  define g where "g = f0\<lparr>synchronized_objective_value := 0,
                 count_per_disjunction := cv_Revert (count_per_disjunction f0)\<rparr>"
  have g: "filter_cost g" "synchronized_objective_value g = 0"
    using assms(1) by (simp_all add: g_def)
  have "synchronized_objective_value
      (fold (sync_disjunction m IsVarSynced Value) [0..<GetNumberOfDisjunctions m] g) =
     synchronized_objective_value g
       + sum_list (map (synchronized_penalty m IsVarSynced Value) [0..<GetNumberOfDisjunctions m])"
    using g(1) by (rule sync_fold_value) (use assms(2) g(2) in simp)
  then show "synchronized_objective_value (NodeDisjunction_OnSynchronize m IsVarSynced Value f0) =
      sum_list (map (synchronized_penalty m IsVarSynced Value) [0..<GetNumberOfDisjunctions m])"
    by (simp add: NodeDisjunction_OnSynchronize_def Let_def g_def[symmetric] g(2))
  show "accepted_objective_value (NodeDisjunction_OnSynchronize m IsVarSynced Value f0) =
      synchronized_objective_value (NodeDisjunction_OnSynchronize m IsVarSynced Value f0)"
    by (simp add: NodeDisjunction_OnSynchronize_def Let_def)
  have "\<And>ds f. filter_cost (fold (sync_disjunction m IsVarSynced Value) ds f) = filter_cost f"
    subgoal for ds f
      by (induction ds arbitrary: f) (simp_all add: sync_disjunction_def Let_def)
    done
  then show "filter_cost (NodeDisjunction_OnSynchronize m IsVarSynced Value f0)"
    using assms(1) by (simp add: NodeDisjunction_OnSynchronize_def Let_def)
qed

lemma Accept_value:
  assumes "filter_cost f"
    and "\<not> has_unbound_element FindIndex delta"
    and "\<not> list_ex (\<lambda>index. active (cv_Get (counts_after m FindIndex IsVarSynced Value f delta) index)
              > GetDisjunctionMaxCardinality m index)
           (ChangedIndices (counts_after m FindIndex IsVarSynced Value f delta))"
    and "list_all (\<lambda>d. 0 \<le> GetDisjunctionPenalty m d)
           (ChangedIndices (counts_after m FindIndex IsVarSynced Value f delta))"
    and "sums_in_range (synchronized_objective_value f)
           (map (penalty_change m (counts_after m FindIndex IsVarSynced Value f delta))
              (ChangedIndices (counts_after m FindIndex IsVarSynced Value f delta)))"
  shows "accepted_objective_value
           (snd (NodeDisjunction_Accept m FindIndex IsVarSynced Value f delta objective_max)) =
         synchronized_objective_value f
           + sum_list (map (penalty_change m (counts_after m FindIndex IsVarSynced Value f delta))
               (ChangedIndices (counts_after m FindIndex IsVarSynced Value f delta)))"
    and "fst (NodeDisjunction_Accept m FindIndex IsVarSynced Value f delta objective_max) =
         (synchronized_objective_value f
           + sum_list (map (penalty_change m (counts_after m FindIndex IsVarSynced Value f delta))
               (ChangedIndices (counts_after m FindIndex IsVarSynced Value f delta)))
          \<le> objective_max)"
proof -
  define st where "st = fold (count_element m FindIndex IsVarSynced Value) delta
                 (False, cv_Revert (count_per_disjunction f))"
  define cv where "cv = counts_after m FindIndex IsVarSynced Value f delta"
  have cv: "snd st = cv" by (simp add: st_def cv_def counts_after_def)
  have lns: "\<not> fst st"
    using assms(2) by (simp add: st_def fold_count_element_lns)
  have loop: "penalty_loop m cv (ChangedIndices cv) (synchronized_objective_value f) =
      (True, synchronized_objective_value f
         + sum_list (map (penalty_change m cv) (ChangedIndices cv)))"
    using assms(4,5) unfolding cv_def[symmetric] by (rule penalty_loop_sum)
  have res: "NodeDisjunction_Accept m FindIndex IsVarSynced Value f delta objective_max =
      (synchronized_objective_value f + sum_list (map (penalty_change m cv) (ChangedIndices cv))
         \<le> objective_max,
       f\<lparr>count_per_disjunction := cv,
         accepted_objective_value := synchronized_objective_value f
           + sum_list (map (penalty_change m cv) (ChangedIndices cv))\<rparr>)"
    using assms(1,3) lns loop
    unfolding NodeDisjunction_Accept_def st_def[symmetric] Let_def cv cv_def[symmetric]
    by simp
  show "accepted_objective_value
           (snd (NodeDisjunction_Accept m FindIndex IsVarSynced Value f delta objective_max)) =
         synchronized_objective_value f
           + sum_list (map (penalty_change m (counts_after m FindIndex IsVarSynced Value f delta))
               (ChangedIndices (counts_after m FindIndex IsVarSynced Value f delta)))"
    by (simp add: res cv_def)
  show "fst (NodeDisjunction_Accept m FindIndex IsVarSynced Value f delta objective_max) =
         (synchronized_objective_value f
           + sum_list (map (penalty_change m (counts_after m FindIndex IsVarSynced Value f delta))
               (ChangedIndices (counts_after m FindIndex IsVarSynced Value f delta)))
          \<le> objective_max)"
    by (simp add: res cv_def)
qed


text \<open>No changed disjunction has more active nodes than its maximum cardinality.\<close>

definition cardinalities_respected ::
  "DisjunctionModel \<Rightarrow> ActivityCount CommittableVector \<Rightarrow> bool" where
  "cardinalities_respected m cv =
     (\<not> list_ex (\<lambda>index. active (cv_Get cv index) > GetDisjunctionMaxCardinality m index)
          (ChangedIndices cv))"

text \<open>On an element that is not bound the filter accepts with objective value 0, unless a
  changed disjunction has too many active nodes: then it rejects.\<close>

lemma NodeDisjunction_Accept_lns:
  assumes "has_unbound_element FindIndex delta"
  shows "NodeDisjunction_Accept m FindIndex IsVarSynced Value f delta objective_max =
    (if cardinalities_respected m (counts_after m FindIndex IsVarSynced Value f delta)
     then (True, f\<lparr>count_per_disjunction := counts_after m FindIndex IsVarSynced Value f delta,
                   accepted_objective_value := 0\<rparr>)
     else (False, f\<lparr>count_per_disjunction := counts_after m FindIndex IsVarSynced Value f delta\<rparr>))"
proof -
  define st where "st = fold (count_element m FindIndex IsVarSynced Value) delta
                 (False, cv_Revert (count_per_disjunction f))"
  have "fst st" using assms by (simp add: st_def fold_count_element_lns)
  moreover have "snd st = counts_after m FindIndex IsVarSynced Value f delta"
    by (simp add: st_def counts_after_def)
  ultimately show ?thesis
    unfolding NodeDisjunction_Accept_def st_def[symmetric] Let_def cardinalities_respected_def
    by simp
qed

definition S2_delta_inactive :: "IntVarElement list" where
  "S2_delta_inactive = [\<lparr>Var = 3, Min_e = 3, Max_e = 3\<rparr>]"

text \<open>C8 (amended). For a filter that filters cost: \<open>OnSynchronize\<close> counts the nodes of
  every disjunction and its objective value is the sum, over the disjunctions of positive
  penalty, of the penalty times the violation \<open>max(0, inactive - (size - max_cardinality))\<close>,
  clamped to 1 under \<open>PENALIZE_ONCE\<close>. Then \<open>Accept\<close>, on a delta without unbound element
  that leaves every changed disjunction within its cardinality and changes no disjunction
  of negative penalty, replaces in that sum the penalty of every changed disjunction by its
  penalty for the new number of inactive nodes, and accepts when the result is at most
  \<open>objective_max\<close>; no sum saturating.\<close>

theorem NodeDisjunction_penalty_formula:
  assumes "filter_cost f0"
    and "GetNumberOfDisjunctions m \<le> length (committed_values (count_per_disjunction f0))"
    and "sums_in_range 0 (map (synchronized_penalty m IsVarSynced Value) [0..<GetNumberOfDisjunctions m])"
    and "\<not> has_unbound_element FindIndex delta"
    and "cardinalities_respected m
           (counts_after m FindIndex IsVarSynced Value
              (NodeDisjunction_OnSynchronize m IsVarSynced Value f0) delta)"
    and "list_all (\<lambda>d. 0 \<le> GetDisjunctionPenalty m d)
           (ChangedIndices (counts_after m FindIndex IsVarSynced Value
              (NodeDisjunction_OnSynchronize m IsVarSynced Value f0) delta))"
    and "sums_in_range (synchronized_objective_value (NodeDisjunction_OnSynchronize m IsVarSynced Value f0))
           (map (penalty_change m (counts_after m FindIndex IsVarSynced Value
                   (NodeDisjunction_OnSynchronize m IsVarSynced Value f0) delta))
              (ChangedIndices (counts_after m FindIndex IsVarSynced Value
                   (NodeDisjunction_OnSynchronize m IsVarSynced Value f0) delta)))"
  shows "synchronized_objective_value (NodeDisjunction_OnSynchronize m IsVarSynced Value f0) =
      sum_list (map (synchronized_penalty m IsVarSynced Value) [0..<GetNumberOfDisjunctions m]) \<and>
    (\<forall>d < GetNumberOfDisjunctions m.
       cv_GetCommitted (counts_after m FindIndex IsVarSynced Value
              (NodeDisjunction_OnSynchronize m IsVarSynced Value f0) delta) d
         = sync_count IsVarSynced Value (GetDisjunctionNodeIndices m d)) \<and>
    accepted_objective_value
      (snd (NodeDisjunction_Accept m FindIndex IsVarSynced Value
              (NodeDisjunction_OnSynchronize m IsVarSynced Value f0) delta objective_max)) =
      synchronized_objective_value (NodeDisjunction_OnSynchronize m IsVarSynced Value f0)
        + sum_list (map (penalty_change m (counts_after m FindIndex IsVarSynced Value
                   (NodeDisjunction_OnSynchronize m IsVarSynced Value f0) delta))
              (ChangedIndices (counts_after m FindIndex IsVarSynced Value
                   (NodeDisjunction_OnSynchronize m IsVarSynced Value f0) delta))) \<and>
    fst (NodeDisjunction_Accept m FindIndex IsVarSynced Value
              (NodeDisjunction_OnSynchronize m IsVarSynced Value f0) delta objective_max) =
      (accepted_objective_value
         (snd (NodeDisjunction_Accept m FindIndex IsVarSynced Value
              (NodeDisjunction_OnSynchronize m IsVarSynced Value f0) delta objective_max))
       \<le> objective_max)"
proof -
  define f where "f = NodeDisjunction_OnSynchronize m IsVarSynced Value f0"
  define cv where "cv = counts_after m FindIndex IsVarSynced Value f delta"
  have s1: "synchronized_objective_value f =
      sum_list (map (synchronized_penalty m IsVarSynced Value) [0..<GetNumberOfDisjunctions m])"
    and fc: "filter_cost f"
    unfolding f_def using assms(1,3) by (rule OnSynchronize_value)+
  have s2: "\<forall>d < GetNumberOfDisjunctions m.
       cv_GetCommitted cv d = sync_count IsVarSynced Value (GetDisjunctionNodeIndices m d)"
  proof (intro allI impI)
    fix d assume d: "d < GetNumberOfDisjunctions m"
    have "cv_GetCommitted cv d = cv_GetCommitted (count_per_disjunction f) d"
      by (simp add: cv_GetCommitted_def cv_def counts_after_committed)
    also have "\<dots> = sync_count IsVarSynced Value (GetDisjunctionNodeIndices m d)"
      unfolding f_def using d assms(2) by (rule OnSynchronize_committed)
    finally show "cv_GetCommitted cv d = sync_count IsVarSynced Value (GetDisjunctionNodeIndices m d)" .
  qed
  have card: "\<not> list_ex (\<lambda>index. active (cv_Get (counts_after m FindIndex IsVarSynced Value f delta) index)
              > GetDisjunctionMaxCardinality m index)
           (ChangedIndices (counts_after m FindIndex IsVarSynced Value f delta))"
    using assms(5) by (simp add: cardinalities_respected_def f_def)
  have soft: "list_all (\<lambda>d. 0 \<le> GetDisjunctionPenalty m d)
           (ChangedIndices (counts_after m FindIndex IsVarSynced Value f delta))"
    using assms(6) by (simp add: f_def)
  have rng: "sums_in_range (synchronized_objective_value f)
           (map (penalty_change m (counts_after m FindIndex IsVarSynced Value f delta))
              (ChangedIndices (counts_after m FindIndex IsVarSynced Value f delta)))"
    using assms(7) by (simp add: f_def)
  note A = Accept_value[OF fc assms(4) card soft rng, of objective_max]
  show ?thesis
    unfolding f_def[symmetric] cv_def[symmetric]
    using s1 s2 A by (simp add: cv_def)
qed

lemma S2_counts:
  "counts_after S2_model S2_FindIndex (\<lambda>i. True) S2_Value (S2_filter True) S2_delta_inactive =
     \<lparr>committed_values = [\<lparr>active = 1, inactive = 2\<rparr>],
      current_values = [\<lparr>active = 0, inactive = 3\<rparr>], changed_indices = [0]\<rparr>"
  by code_simp

theorem NodeDisjunction_penalty_witness:
  "filter_cost (NodeDisjunctionFilter_init S2_model True False) \<and>
   \<not> has_unbound_element S2_FindIndex S2_delta_inactive \<and>
   synchronized_objective_value (S2_filter True) = 0 \<and>
   disjunction_penalty S2_model 0 3 = 7 \<and>
   disjunction_penalty S2_model 0 2 = 0 \<and>
   accepted_objective_value
     (snd (NodeDisjunction_Accept S2_model S2_FindIndex (\<lambda>i. True) S2_Value (S2_filter True)
        S2_delta_inactive 100)) = 7 \<and>
   fst (NodeDisjunction_Accept S2_model S2_FindIndex (\<lambda>i. True) S2_Value (S2_filter True)
        S2_delta_inactive 100)"
proof -
  have h1: "filter_cost (NodeDisjunctionFilter_init S2_model True False)"
    by (simp add: NodeDisjunctionFilter_init_def)
  have h2: "GetNumberOfDisjunctions S2_model
      \<le> length (committed_values (count_per_disjunction (NodeDisjunctionFilter_init S2_model True False)))"
    by (simp add: NodeDisjunctionFilter_init_def)
  have h3: "sums_in_range 0 (map (synchronized_penalty S2_model (\<lambda>i. True) S2_Value)
      [0..<GetNumberOfDisjunctions S2_model])"
    by code_simp
  have h4: "\<not> has_unbound_element S2_FindIndex S2_delta_inactive"
    by code_simp
  have s0: "synchronized_objective_value (S2_filter True) = 0"
    by code_simp
  have p3: "disjunction_penalty S2_model 0 3 = 7" and p2: "disjunction_penalty S2_model 0 2 = 0"
    by code_simp+
  have h5: "cardinalities_respected S2_model
     (counts_after S2_model S2_FindIndex (\<lambda>i. True) S2_Value (S2_filter True) S2_delta_inactive)"
    unfolding S2_counts by code_simp
  have h6: "list_all (\<lambda>d. 0 \<le> GetDisjunctionPenalty S2_model d)
     (ChangedIndices (counts_after S2_model S2_FindIndex (\<lambda>i. True) S2_Value (S2_filter True)
        S2_delta_inactive))"
    unfolding S2_counts by code_simp
  have pc: "map (penalty_change S2_model
        (counts_after S2_model S2_FindIndex (\<lambda>i. True) S2_Value (S2_filter True) S2_delta_inactive))
      (ChangedIndices (counts_after S2_model S2_FindIndex (\<lambda>i. True) S2_Value (S2_filter True)
        S2_delta_inactive)) = [7]"
    unfolding S2_counts by code_simp
  have h7: "sums_in_range (synchronized_objective_value (S2_filter True))
     (map (penalty_change S2_model
        (counts_after S2_model S2_FindIndex (\<lambda>i. True) S2_Value (S2_filter True) S2_delta_inactive))
      (ChangedIndices (counts_after S2_model S2_FindIndex (\<lambda>i. True) S2_Value (S2_filter True)
        S2_delta_inactive)))"
    unfolding pc s0 by code_simp
  note T = NodeDisjunction_penalty_formula[of "NodeDisjunctionFilter_init S2_model True False"
      S2_model "\<lambda>i. True" S2_Value S2_FindIndex S2_delta_inactive 100,
      folded S2_filter_def, OF h1 h2 h3 h4 h5 h6 h7]
  have acc: "accepted_objective_value
     (snd (NodeDisjunction_Accept S2_model S2_FindIndex (\<lambda>i. True) S2_Value (S2_filter True)
        S2_delta_inactive 100)) = 7"
    using T unfolding pc s0 by simp
  have ok: "fst (NodeDisjunction_Accept S2_model S2_FindIndex (\<lambda>i. True) S2_Value (S2_filter True)
        S2_delta_inactive 100)"
    using T unfolding acc by simp
  show ?thesis using h1 h4 s0 p3 p2 acc ok by blast
qed

text \<open>The claim as stated fails for a filter that does not filter cost: the number of
  inactive nodes of the disjunction of penalty 7 goes from 2 to 3, one above what its
  cardinality allows, and the accepted objective value is 0.\<close>

theorem NodeDisjunction_no_cost_counterexample:
  "GetDisjunctionPenalty S2_model 0 = 7 \<and>
   inactive (cv_GetCommitted (counts_after S2_model S2_FindIndex (\<lambda>i. True) S2_Value
       (S2_filter False) S2_delta_inactive) 0) = 2 \<and>
   inactive (cv_Get (counts_after S2_model S2_FindIndex (\<lambda>i. True) S2_Value
       (S2_filter False) S2_delta_inactive) 0) = 3 \<and>
   disjunction_penalty S2_model 0 3 = 7 \<and>
   fst (NodeDisjunction_Accept S2_model S2_FindIndex (\<lambda>i. True) S2_Value (S2_filter False)
        S2_delta_inactive 100) \<and>
   accepted_objective_value
     (snd (NodeDisjunction_Accept S2_model S2_FindIndex (\<lambda>i. True) S2_Value (S2_filter False)
        S2_delta_inactive 100)) = 0"
  by code_simp

text \<open>A filter that does not filter cost and has no mandatory disjunction checks the
  cardinalities only: when they are respected it accepts with objective value 0.\<close>

lemma NodeDisjunction_Accept_no_cost:
  assumes "\<not> filter_cost f" and "\<not> has_mandatory_disjunctions f"
  shows "NodeDisjunction_Accept m FindIndex IsVarSynced Value f delta objective_max =
    (if cardinalities_respected m (counts_after m FindIndex IsVarSynced Value f delta)
     then (True, f\<lparr>count_per_disjunction := counts_after m FindIndex IsVarSynced Value f delta,
                   accepted_objective_value := 0\<rparr>)
     else (False, f\<lparr>count_per_disjunction := counts_after m FindIndex IsVarSynced Value f delta\<rparr>))"
proof -
  define st where "st = fold (count_element m FindIndex IsVarSynced Value) delta
                 (False, cv_Revert (count_per_disjunction f))"
  have "snd st = counts_after m FindIndex IsVarSynced Value f delta"
    by (simp add: st_def counts_after_def)
  then show ?thesis
    using assms
    unfolding NodeDisjunction_Accept_def st_def[symmetric] Let_def cardinalities_respected_def
    by simp
qed


section \<open>BasePathFilter\<close>

text \<open>The skeleton of the path filters. Node indices are naturals; the entries of
  \<open>node_path_starts\<close>, \<open>new_nexts\<close>, \<open>ranks\<close> and of the chain windows are integers,
  \<open>kUnassigned\<close> when there is none. The vectors are read and written inside their
  bounds only: the theorems below assume the indices of the delta in range.\<close>

definition kUnassigned :: int where
  "kUnassigned = - 1"

datatype Status = UNKNOWN | ENABLED | DISABLED

text \<open>Modelled from the spec: the paths metadata gives the start node and the end node of
  every path, \<open>IsStart\<close> and \<open>IsEnd\<close> hold of these nodes.\<close>

record PathsMetadata =
  Starts :: "nat list"
  Ends :: "nat list"

definition NumPaths :: "PathsMetadata \<Rightarrow> nat" where
  "NumPaths pm = length (Starts pm)"

definition PathsMetadata_IsStart :: "PathsMetadata \<Rightarrow> nat \<Rightarrow> bool" where
  "PathsMetadata_IsStart pm node = (node \<in> set (Starts pm))"

definition PathsMetadata_IsEnd :: "PathsMetadata \<Rightarrow> nat \<Rightarrow> bool" where
  "PathsMetadata_IsEnd pm node = (node \<in> set (Ends pm))"

text \<open>Modelled from the spec: the sparse bitset of the touched paths is the list of the
  positions set at least once, in the order they were first set.\<close>

definition SparseBitset_Set :: "nat \<Rightarrow> nat list \<Rightarrow> nat list" where
  "SparseBitset_Set i positions = (if i \<in> set positions then positions else positions @ [i])"

record BasePathFilter =
  node_path_starts :: "int list"
  new_nexts :: "int list"
  delta_touched :: "nat list"
  touched_paths :: "nat list"
  touched_path_chain_start_ends :: "(int \<times> int) list"
  ranks :: "int list"
  status :: Status
  lns_detected :: bool

definition BasePathFilter_init :: "nat \<Rightarrow> nat \<Rightarrow> BasePathFilter" where
  "BasePathFilter_init nexts_size next_domain_size =
     \<lparr>node_path_starts = replicate next_domain_size kUnassigned,
      new_nexts = replicate nexts_size kUnassigned,
      delta_touched = [],
      touched_paths = [],
      touched_path_chain_start_ends = replicate nexts_size (kUnassigned, kUnassigned),
      ranks = replicate next_domain_size kUnassigned,
      status = UNKNOWN,
      lns_detected = False\<rparr>"

definition BasePathFilter_Size :: "BasePathFilter \<Rightarrow> nat" where
  "BasePathFilter_Size f = length (new_nexts f)"

definition IsDisabled :: "BasePathFilter \<Rightarrow> bool" where
  "IsDisabled f = (status f = DISABLED)"

text \<open>The calls \<open>Accept\<close> makes to the subclass, in order. The subclass has a state of its
  own, which its three operations read and change; \<open>AcceptPath\<close> and \<open>FinalizeAcceptPath\<close>
  also read the skeleton.\<close>

datatype Call =
  CallInitializeAcceptPath
  | CallAcceptPath nat int int
  | CallFinalizeAcceptPath int int

record 'c PathFilterCallbacks =
  InitializeAcceptPath :: "BasePathFilter \<Rightarrow> 'c \<Rightarrow> bool \<times> 'c"
  AcceptPath :: "BasePathFilter \<Rightarrow> nat \<Rightarrow> int \<Rightarrow> int \<Rightarrow> 'c \<Rightarrow> bool \<times> 'c"
  FinalizeAcceptPath :: "BasePathFilter \<Rightarrow> int \<Rightarrow> int \<Rightarrow> 'c \<Rightarrow> bool \<times> 'c"

text \<open>The lambda of \<open>Accept\<close> that widens the chain window of the path of a touched node.\<close>

definition update_touched_path_chain_start_end ::
  "PathsMetadata \<Rightarrow> nat \<Rightarrow> BasePathFilter \<Rightarrow> BasePathFilter" where
  "update_touched_path_chain_start_end pm index f =
     (let start = node_path_starts f ! index in
      if start = kUnassigned then f
      else
        let (chain_start, chain_end) = touched_path_chain_start_ends f ! nat start;
            new_chain_start =
              (if chain_start = kUnassigned \<or> PathsMetadata_IsStart pm index \<or>
                  ranks f ! index < ranks f ! nat chain_start
               then int index else chain_start);
            new_chain_end =
              (if chain_end = kUnassigned \<or> PathsMetadata_IsEnd pm index \<or>
                  ranks f ! index > ranks f ! nat chain_end
               then int index else chain_end)
        in f\<lparr>touched_paths := SparseBitset_Set (nat start) (touched_paths f),
              touched_path_chain_start_ends :=
                (touched_path_chain_start_ends f)[nat start := (new_chain_start, new_chain_end)]\<rparr>)"

text \<open>The loop over the elements of the delta; the first component of the result tells
  that the loop returned on an element that is not bound.\<close>

fun accept_elements ::
  "PathsMetadata \<Rightarrow> (nat \<Rightarrow> nat option) \<Rightarrow> IntVarElement list \<Rightarrow> BasePathFilter
     \<Rightarrow> bool \<times> BasePathFilter" where
  "accept_elements pm FindIndex [] f = (False, f)"
| "accept_elements pm FindIndex (new_element # elements) f =
     (case FindIndex (Var new_element) of
        None \<Rightarrow> accept_elements pm FindIndex elements f
      | Some index \<Rightarrow>
          if \<not> Bound new_element then (True, f\<lparr>lns_detected := True\<rparr>)
          else
            let f1 = f\<lparr>new_nexts := (new_nexts f)[index := Value_e new_element],
                       delta_touched := delta_touched f @ [index]\<rparr>;
                f2 = update_touched_path_chain_start_end pm index f1;
                f3 = update_touched_path_chain_start_end pm (nat (new_nexts f2 ! index)) f2
            in accept_elements pm FindIndex elements f3)"

text \<open>The loop over the touched paths, with the calls made so far.\<close>

fun accept_paths ::
  "'c PathFilterCallbacks \<Rightarrow> BasePathFilter \<Rightarrow> nat list \<Rightarrow> Call list \<Rightarrow> 'c
     \<Rightarrow> bool \<times> Call list \<times> 'c" where
  "accept_paths cb f [] calls c = (True, calls, c)"
| "accept_paths cb f (touched_start # starts) calls c =
     (let start_end = touched_path_chain_start_ends f ! touched_start;
          (ok, c1) = AcceptPath cb f touched_start (fst start_end) (snd start_end) c;
          calls1 = calls @ [CallAcceptPath touched_start (fst start_end) (snd start_end)]
      in if \<not> ok then (False, calls1, c1)
         else accept_paths cb f starts calls1 c1)"

text \<open>\<open>Accept\<close> returns its result, the calls it made to the subclass, the state of the
  subclass and the skeleton.\<close>

definition BasePathFilter_Accept ::
  "PathsMetadata \<Rightarrow> (nat \<Rightarrow> nat option) \<Rightarrow> 'c PathFilterCallbacks \<Rightarrow> BasePathFilter \<Rightarrow> 'c
     \<Rightarrow> IntVarElement list \<Rightarrow> int \<Rightarrow> int \<Rightarrow> bool \<times> Call list \<times> 'c \<times> BasePathFilter" where
  "BasePathFilter_Accept pm FindIndex cb f c delta objective_min objective_max =
     (if IsDisabled f then (True, [], c, f)
      else
        let f1 = f\<lparr>lns_detected := False,
                   new_nexts := fold (\<lambda>touched nexts. nexts[touched := kUnassigned])
                                  (delta_touched f) (new_nexts f),
                   delta_touched := []\<rparr>;
            f2 = f1\<lparr>touched_path_chain_start_ends :=
                       fold (\<lambda>touched_path ends. ends[touched_path := (kUnassigned, kUnassigned)])
                         (touched_paths f1) (touched_path_chain_start_ends f1),
                     touched_paths := []\<rparr>;
            (lns, f3) = accept_elements pm FindIndex delta f2
        in if lns then (True, [], c, f3)
           else
             let (initialized, c1) = InitializeAcceptPath cb f3 c in
             if \<not> initialized then (False, [CallInitializeAcceptPath], c1, f3)
             else
               let (accepted, calls, c2) =
                     accept_paths cb f3 (touched_paths f3) [CallInitializeAcceptPath] c1 in
               if \<not> accepted then (False, calls, c2, f3)
               else
                 let (finalized, c3) = FinalizeAcceptPath cb f3 objective_min objective_max c2
                 in (finalized, calls @ [CallFinalizeAcceptPath objective_min objective_max],
                     c3, f3))"

text \<open>The objective value a subclass reports for the neighbor: what \<open>RouteConstraintFilter\<close>
  and \<open>VehicleAmortizedCostFilter\<close> do with their \<open>delta_vehicle_cost\<close>.\<close>

definition GetAcceptedObjectiveValue :: "BasePathFilter \<Rightarrow> int \<Rightarrow> int" where
  "GetAcceptedObjectiveValue f delta_vehicle_cost =
     (if lns_detected f then 0 else delta_vehicle_cost)"

subsection \<open>Synchronization of the whole assignment\<close>

text \<open>\<open>UpdatePathRanksFromStart\<close>: the walk from a start along the committed nexts; it
  need not end when the nexts cycle.\<close>

partial_function (option) update_path_ranks ::
  "(nat \<Rightarrow> int) \<Rightarrow> nat \<Rightarrow> nat \<Rightarrow> int \<Rightarrow> int list \<Rightarrow> int list option" where
  "update_path_ranks Value nexts_size node rank rks =
     (if node < nexts_size
      then update_path_ranks Value nexts_size (nat (Value node)) (rank + 1) (rks[node := rank])
      else Some (rks[node := rank]))"

declare update_path_ranks.simps [code]

definition UpdatePathRanksFromStart ::
  "(nat \<Rightarrow> int) \<Rightarrow> nat \<Rightarrow> BasePathFilter \<Rightarrow> BasePathFilter option" where
  "UpdatePathRanksFromStart Value start f =
     map_option (\<lambda>rks. f\<lparr>ranks := rks\<rparr>)
       (update_path_ranks Value (BasePathFilter_Size f) start 0 (ranks f))"

fun update_all_ranks ::
  "(nat \<Rightarrow> bool) \<Rightarrow> (nat \<Rightarrow> int) \<Rightarrow> nat list \<Rightarrow> BasePathFilter \<Rightarrow> BasePathFilter option" where
  "update_all_ranks IsVarSynced Value [] f = Some f"
| "update_all_ranks IsVarSynced Value (start # starts) f =
     (if \<not> IsVarSynced start then update_all_ranks IsVarSynced Value starts f
      else case UpdatePathRanksFromStart Value start f of
             None \<Rightarrow> None
           | Some f1 \<Rightarrow> update_all_ranks IsVarSynced Value starts f1)"

definition UpdateAllRanks ::
  "PathsMetadata \<Rightarrow> (nat \<Rightarrow> bool) \<Rightarrow> (nat \<Rightarrow> int) \<Rightarrow> BasePathFilter \<Rightarrow> BasePathFilter option" where
  "UpdateAllRanks pm IsVarSynced Value f =
     update_all_ranks IsVarSynced Value (Starts pm)
       (f\<lparr>ranks := replicate (length (ranks f)) kUnassigned\<rparr>)"

text \<open>The walk of \<open>SynchronizeFullAssignment\<close> that marks the nodes of a path.\<close>

partial_function (option) mark_path ::
  "(nat \<Rightarrow> int) \<Rightarrow> nat \<Rightarrow> int \<Rightarrow> nat \<Rightarrow> int list \<Rightarrow> int list option" where
  "mark_path Value nexts_size start next starts =
     (if next < nexts_size
      then mark_path Value nexts_size start (nat (Value next)) (starts[next := start])
      else Some (starts[next := start]))"

declare mark_path.simps [code]

fun mark_paths ::
  "(nat \<Rightarrow> bool) \<Rightarrow> (nat \<Rightarrow> int) \<Rightarrow> nat \<Rightarrow> (nat \<times> nat) list \<Rightarrow> int list \<Rightarrow> int list option" where
  "mark_paths IsVarSynced Value nexts_size [] starts = Some starts"
| "mark_paths IsVarSynced Value nexts_size ((start, end) # rest) starts =
     (let starts1 = starts[start := int start] in
      case (if IsVarSynced start
            then mark_path Value nexts_size (int start) (nat (Value start)) starts1
            else Some starts1) of
        None \<Rightarrow> None
      | Some starts2 \<Rightarrow>
          mark_paths IsVarSynced Value nexts_size rest (starts2[end := int start]))"

text \<open>\<open>SynchronizeFullAssignment\<close>, for the fields of the skeleton that \<open>Accept\<close> reads;
  the operations of the subclass are left out.\<close>

definition SynchronizeFullAssignment ::
  "PathsMetadata \<Rightarrow> (nat \<Rightarrow> bool) \<Rightarrow> (nat \<Rightarrow> int) \<Rightarrow> BasePathFilter \<Rightarrow> BasePathFilter option" where
  "SynchronizeFullAssignment pm IsVarSynced Value f =
     (case mark_paths IsVarSynced Value (BasePathFilter_Size f) (zip (Starts pm) (Ends pm))
             (replicate (length (node_path_starts f)) kUnassigned) of
        None \<Rightarrow> None
      | Some starts \<Rightarrow>
          UpdateAllRanks pm IsVarSynced Value
            (f\<lparr>node_path_starts := starts,
               new_nexts := fold (\<lambda>touched nexts. nexts[touched := kUnassigned])
                              (delta_touched f) (new_nexts f),
               delta_touched := []\<rparr>))"

subsection \<open>\<open>OnSynchronize\<close>\<close>

text \<open>The loop of the incremental branch over the elements of the delta: the path of the
  index is marked touched, and a node the new assignment leaves unperformed is taken off
  its path. \<open>Value\<close> gives the synchronized assignment.\<close>

definition sync_element ::
  "(nat \<Rightarrow> nat option) \<Rightarrow> (nat \<Rightarrow> int) \<Rightarrow> IntVarElement \<Rightarrow> BasePathFilter \<Rightarrow> BasePathFilter" where
  "sync_element FindIndex Value new_element f =
     (case FindIndex (Var new_element) of
        None \<Rightarrow> f
      | Some index \<Rightarrow>
          let start = node_path_starts f ! index in
          if start = kUnassigned then f
          else
            let f1 = f\<lparr>touched_paths := SparseBitset_Set (nat start) (touched_paths f)\<rparr>
            in if Value index = int index
               then f1\<lparr>node_path_starts := (node_path_starts f1)[index := kUnassigned]\<rparr>
               else f1)"

text \<open>The loop of the incremental branch over the touched paths: the nodes of the path are
  marked and ranked again.\<close>

fun sync_touched_paths ::
  "(nat \<Rightarrow> int) \<Rightarrow> nat list \<Rightarrow> BasePathFilter \<Rightarrow> BasePathFilter option" where
  "sync_touched_paths Value [] f = Some f"
| "sync_touched_paths Value (touched_start # starts) f =
     (case mark_path Value (BasePathFilter_Size f) (int touched_start) touched_start
             (node_path_starts f) of
        None \<Rightarrow> None
      | Some marked \<Rightarrow>
          (case UpdatePathRanksFromStart Value touched_start (f\<lparr>node_path_starts := marked\<rparr>) of
             None \<Rightarrow> None
           | Some f1 \<Rightarrow> sync_touched_paths Value starts f1))"

text \<open>\<open>OnSynchronize\<close>, for the fields of the skeleton; the delta is \<open>None\<close> for a null
  pointer, and \<open>DisableFiltering\<close> is the answer of the subclass. The touched paths are
  cleared before the loop over the elements; the chain windows are not written.\<close>

definition BasePathFilter_OnSynchronize ::
  "PathsMetadata \<Rightarrow> (nat \<Rightarrow> nat option) \<Rightarrow> (nat \<Rightarrow> bool) \<Rightarrow> (nat \<Rightarrow> int) \<Rightarrow> bool
     \<Rightarrow> IntVarElement list option \<Rightarrow> BasePathFilter \<Rightarrow> BasePathFilter option" where
  "BasePathFilter_OnSynchronize pm FindIndex IsVarSynced Value DisableFiltering delta f =
     (let f0 = (if status f = UNKNOWN
                then f\<lparr>status := (if DisableFiltering then DISABLED else ENABLED)\<rparr>
                else f)
      in if IsDisabled f0 then Some f0
         else
           case delta of
             None \<Rightarrow> SynchronizeFullAssignment pm IsVarSynced Value f0
           | Some elements \<Rightarrow>
               if elements = [] \<or> list_all (\<lambda>rank. rank = kUnassigned) (ranks f0)
               then SynchronizeFullAssignment pm IsVarSynced Value f0
               else
                 let f1 = fold (sync_element FindIndex Value) elements (f0\<lparr>touched_paths := []\<rparr>);
                     f2 = f1\<lparr>new_nexts := fold (\<lambda>touched nexts. nexts[touched := kUnassigned])
                                               (delta_touched f1) (new_nexts f1),
                               delta_touched := []\<rparr>
                 in sync_touched_paths Value (touched_paths f2) f2)"

subsection \<open>A path of four nodes and an unperformed node\<close>

text \<open>One path \<open>0 \<rightarrow> 1 \<rightarrow> 2 \<rightarrow> 3 \<rightarrow> 5\<close> from the start 0 to the end 5, node 4 unperformed.\<close>

definition P_metadata :: PathsMetadata where
  "P_metadata = \<lparr>Starts = [0], Ends = [5]\<rparr>"

definition P_Value :: "nat \<Rightarrow> int" where
  "P_Value i = (if i = 0 then 1 else if i = 1 then 2 else if i = 2 then 3 else if i = 3 then 5
                else int i)"

definition P_FindIndex :: "nat \<Rightarrow> nat option" where
  "P_FindIndex v = (if v < 5 then Some v else None)"

definition P_filter :: BasePathFilter where
  "P_filter = (BasePathFilter_init 5 6)\<lparr>
      node_path_starts := [0, 0, 0, 0, - 1, 0],
      ranks := [0, 1, 2, 3, - 1, 4],
      status := ENABLED\<rparr>"

text \<open>A subclass that accepts everything and counts the calls it gets.\<close>

definition P_callbacks :: "nat PathFilterCallbacks" where
  "P_callbacks =
     \<lparr>InitializeAcceptPath = (\<lambda>f c. (True, c + 1)),
      AcceptPath = (\<lambda>f s cs ce c. (True, c + 1)),
      FinalizeAcceptPath = (\<lambda>f omin omax c. (True, c + 1))\<rparr>"

text \<open>The delta that inserts node 4 between 1 and 2, and a delta with an element that is
  not bound.\<close>

definition P_delta :: "IntVarElement list" where
  "P_delta = [\<lparr>Var = 1, Min_e = 4, Max_e = 4\<rparr>, \<lparr>Var = 4, Min_e = 2, Max_e = 2\<rparr>]"

definition P_delta_unbound :: "IntVarElement list" where
  "P_delta_unbound = [\<lparr>Var = 1, Min_e = 4, Max_e = 4\<rparr>, \<lparr>Var = 4, Min_e = 2, Max_e = 3\<rparr>]"

subsection \<open>The chain windows\<close>

text \<open>The nodes a delta touches: the index of every element, and the node the element
  points to.\<close>

definition touched_nodes :: "(nat \<Rightarrow> nat option) \<Rightarrow> IntVarElement list \<Rightarrow> nat list" where
  "touched_nodes FindIndex delta =
     concat (map (\<lambda>e. case FindIndex (Var e) of
                         None \<Rightarrow> []
                       | Some index \<Rightarrow> [index, nat (Value_e e)]) delta)"

text \<open>What the claim asks of the window \<open>(chain_start, chain_end)\<close> of the path of start
  \<open>path_start\<close>, for the touched nodes \<open>ts\<close>.\<close>

definition chain_window ::
  "PathsMetadata \<Rightarrow> BasePathFilter \<Rightarrow> nat list \<Rightarrow> nat \<Rightarrow> int \<Rightarrow> int \<Rightarrow> bool" where
  "chain_window pm f ts path_start chain_start chain_end =
     (0 \<le> chain_start \<and> nat chain_start < length (node_path_starts f) \<and>
      node_path_starts f ! nat chain_start = int path_start \<and>
      0 \<le> chain_end \<and> nat chain_end < length (node_path_starts f) \<and>
      node_path_starts f ! nat chain_end = int path_start \<and>
      list_all (\<lambda>t. node_path_starts f ! t = int path_start \<longrightarrow>
                  ranks f ! nat chain_start \<le> ranks f ! t \<and>
                  ranks f ! t \<le> ranks f ! nat chain_end \<and>
                  (PathsMetadata_IsStart pm t \<longrightarrow> chain_start = int t) \<and>
                  (PathsMetadata_IsEnd pm t \<longrightarrow> chain_end = int t)) ts)"

text \<open>The state a synchronization leaves: a node on a path knows the start of its path,
  which is a variable; no node of the path has a smaller rank than the start or a greater
  rank than the end; a start is on its own path and a path has one end.\<close>

definition node_consistent :: "PathsMetadata \<Rightarrow> BasePathFilter \<Rightarrow> nat \<Rightarrow> bool" where
  "node_consistent pm f i =
     (0 \<le> node_path_starts f ! i \<and>
      nat (node_path_starts f ! i) < length (touched_path_chain_start_ends f) \<and>
      ranks f ! nat (node_path_starts f ! i) \<le> ranks f ! i \<and>
      (PathsMetadata_IsStart pm i \<longrightarrow> node_path_starts f ! i = int i) \<and>
      list_all (\<lambda>j. node_path_starts f ! j = node_path_starts f ! i \<and> PathsMetadata_IsEnd pm j
                  \<longrightarrow> ranks f ! i \<le> ranks f ! j \<and> (PathsMetadata_IsEnd pm i \<longrightarrow> i = j))
        [0..<length (node_path_starts f)])"

definition ranks_consistent :: "PathsMetadata \<Rightarrow> BasePathFilter \<Rightarrow> bool" where
  "ranks_consistent pm f =
     list_all (\<lambda>i. node_path_starts f ! i = kUnassigned \<or> node_consistent pm f i)
       [0..<length (node_path_starts f)]"

text \<open>The windows of the paths that are not marked touched are unassigned: so the
  constructor and \<open>Accept\<close> leave them.\<close>

definition windows_reset :: "BasePathFilter \<Rightarrow> bool" where
  "windows_reset f =
     list_all (\<lambda>p. p \<in> set (touched_paths f) \<or>
                  touched_path_chain_start_ends f ! p = (kUnassigned, kUnassigned))
       [0..<length (touched_path_chain_start_ends f)]"

text \<open>The elements of the delta index the vectors inside their bounds.\<close>

definition delta_in_range :: "(nat \<Rightarrow> nat option) \<Rightarrow> BasePathFilter \<Rightarrow> IntVarElement list \<Rightarrow> bool" where
  "delta_in_range FindIndex f delta =
     list_all (\<lambda>e. case FindIndex (Var e) of
                      None \<Rightarrow> True
                    | Some index \<Rightarrow>
                        index < length (new_nexts f) \<and> index < length (node_path_starts f) \<and>
                        0 \<le> Value_e e \<and> nat (Value_e e) < length (node_path_starts f)) delta"

subsection \<open>Proofs about the skeleton\<close>

lemma accept_elements_lns:
  "fst (accept_elements pm FindIndex delta f) = has_unbound_element FindIndex delta"
proof (induction delta arbitrary: f)
  case Nil
  show ?case by (simp add: has_unbound_element_def)
next
  case (Cons e es)
  show ?case
  proof (cases "FindIndex (Var e)")
    case None
    then show ?thesis using Cons.IH[of f] by (simp add: has_unbound_element_def)
  next
    case (Some index)
    show ?thesis
    proof (cases "Bound e")
      case True
      then show ?thesis using Some Cons.IH by (simp add: has_unbound_element_def Let_def)
    next
      case False
      then show ?thesis using Some by (simp add: has_unbound_element_def)
    qed
  qed
qed

lemma accept_elements_lns_detected:
  "fst (accept_elements pm FindIndex delta f) \<Longrightarrow>
   lns_detected (snd (accept_elements pm FindIndex delta f))"
proof (induction delta arbitrary: f)
  case Nil
  then show ?case by simp
next
  case (Cons e es)
  show ?case
  proof (cases "FindIndex (Var e)")
    case None
    then show ?thesis using Cons.IH[of f] Cons.prems by simp
  next
    case (Some index)
    show ?thesis
    proof (cases "Bound e")
      case True
      then show ?thesis using Some Cons.IH Cons.prems by (simp add: Let_def)
    next
      case False
      then show ?thesis using Some by simp
    qed
  qed
qed

text \<open>On an element that is not bound, an enabled skeleton accepts without a call to the
  subclass, and raises its flag.\<close>

lemma BasePathFilter_Accept_lns:
  assumes "\<not> IsDisabled f" and "has_unbound_element FindIndex delta"
  shows "fst (BasePathFilter_Accept pm FindIndex cb f c delta objective_min objective_max) \<and>
    fst (snd (BasePathFilter_Accept pm FindIndex cb f c delta objective_min objective_max)) = [] \<and>
    fst (snd (snd (BasePathFilter_Accept pm FindIndex cb f c delta objective_min objective_max))) = c \<and>
    lns_detected (snd (snd (snd
      (BasePathFilter_Accept pm FindIndex cb f c delta objective_min objective_max))))"
proof -
  define f2 where "f2 = f\<lparr>lns_detected := False,
       new_nexts := fold (\<lambda>touched nexts. nexts[touched := kUnassigned])
                      (delta_touched f) (new_nexts f),
       delta_touched := [],
       touched_path_chain_start_ends :=
         fold (\<lambda>touched_path ends. ends[touched_path := (kUnassigned, kUnassigned)])
           (touched_paths f) (touched_path_chain_start_ends f),
       touched_paths := []\<rparr>"
  obtain f3 where r: "accept_elements pm FindIndex delta f2 = (True, f3)"
    using accept_elements_lns[of pm FindIndex delta f2] assms(2)
    by (cases "accept_elements pm FindIndex delta f2") simp
  have "lns_detected f3"
    using accept_elements_lns_detected[of pm FindIndex delta f2] r by simp
  moreover have "BasePathFilter_Accept pm FindIndex cb f c delta objective_min objective_max
      = (True, [], c, f3)"
    using assms(1) r unfolding BasePathFilter_Accept_def Let_def f2_def by simp
  ultimately show ?thesis by simp
qed

text \<open>The window of a path, for a set of touched nodes, over the committed starts and
  ranks.\<close>

definition window ::
  "PathsMetadata \<Rightarrow> int list \<Rightarrow> int list \<Rightarrow> nat set \<Rightarrow> nat \<Rightarrow> int \<times> int \<Rightarrow> bool" where
  "window pm nps rk T p w =
     (0 \<le> fst w \<and> nat (fst w) < length nps \<and> nps ! nat (fst w) = int p \<and>
      0 \<le> snd w \<and> nat (snd w) < length nps \<and> nps ! nat (snd w) = int p \<and>
      (\<forall>t \<in> T. nps ! t = int p \<longrightarrow>
         rk ! nat (fst w) \<le> rk ! t \<and> rk ! t \<le> rk ! nat (snd w) \<and>
         (PathsMetadata_IsStart pm t \<longrightarrow> fst w = int t) \<and>
         (PathsMetadata_IsEnd pm t \<longrightarrow> snd w = int t)))"

definition consistent :: "PathsMetadata \<Rightarrow> int list \<Rightarrow> int list \<Rightarrow> nat \<Rightarrow> bool" where
  "consistent pm nps rk n =
     (\<forall>i < length nps. nps ! i \<noteq> kUnassigned \<longrightarrow>
        0 \<le> nps ! i \<and> nat (nps ! i) < n \<and> rk ! nat (nps ! i) \<le> rk ! i \<and>
        (PathsMetadata_IsStart pm i \<longrightarrow> nps ! i = int i) \<and>
        (\<forall>j < length nps. nps ! j = nps ! i \<and> PathsMetadata_IsEnd pm j \<longrightarrow>
           rk ! i \<le> rk ! j \<and> (PathsMetadata_IsEnd pm i \<longrightarrow> i = j)))"

lemma ranks_consistent_consistent:
  "ranks_consistent pm f \<Longrightarrow>
   consistent pm (node_path_starts f) (ranks f) (length (touched_path_chain_start_ends f))"
  by (auto simp: ranks_consistent_def consistent_def node_consistent_def list_all_iff)

lemma chain_window_window:
  "chain_window pm f ts s cs ce = window pm (node_path_starts f) (ranks f) (set ts) s (cs, ce)"
  unfolding chain_window_def window_def list_all_iff by simp

lemma consistent_start_rank:
  "consistent pm nps rk n \<Longrightarrow> i < length nps \<Longrightarrow> nps ! i = int s \<Longrightarrow> rk ! s \<le> rk ! i"
  by (auto simp: consistent_def kUnassigned_def)

lemma consistent_end_rank:
  "consistent pm nps rk n \<Longrightarrow> i < length nps \<Longrightarrow> j < length nps \<Longrightarrow> nps ! i = int s \<Longrightarrow>
   nps ! j = int s \<Longrightarrow> PathsMetadata_IsEnd pm j \<Longrightarrow> rk ! i \<le> rk ! j"
  by (auto simp: consistent_def kUnassigned_def)

lemma consistent_end_unique:
  "consistent pm nps rk n \<Longrightarrow> i < length nps \<Longrightarrow> j < length nps \<Longrightarrow> nps ! i = int s \<Longrightarrow>
   nps ! j = int s \<Longrightarrow> PathsMetadata_IsEnd pm j \<Longrightarrow> PathsMetadata_IsEnd pm i \<Longrightarrow> i = j"
  by (auto simp: consistent_def kUnassigned_def)

lemma consistent_start:
  "consistent pm nps rk n \<Longrightarrow> i < length nps \<Longrightarrow> nps ! i = int s \<Longrightarrow>
   PathsMetadata_IsStart pm i \<Longrightarrow> i = s"
  by (auto simp: consistent_def kUnassigned_def)

lemma consistent_start_in_range:
  "consistent pm nps rk n \<Longrightarrow> i < length nps \<Longrightarrow> nps ! i = int s \<Longrightarrow> s < n"
  by (auto simp: consistent_def kUnassigned_def)

text \<open>The window the lambda computes from the window \<open>w\<close> and the touched node \<open>t\<close>.\<close>

definition widen :: "PathsMetadata \<Rightarrow> int list \<Rightarrow> nat \<Rightarrow> int \<times> int \<Rightarrow> int \<times> int" where
  "widen pm rk t w =
     (if fst w = kUnassigned \<or> PathsMetadata_IsStart pm t \<or> rk ! t < rk ! nat (fst w)
      then int t else fst w,
      if snd w = kUnassigned \<or> PathsMetadata_IsEnd pm t \<or> rk ! t > rk ! nat (snd w)
      then int t else snd w)"

lemma window_first:
  assumes "t < length nps" and "nps ! t = int s" and "\<forall>u \<in> T. nps ! u \<noteq> int s"
  shows "window pm nps rk (insert t T) s (widen pm rk t (kUnassigned, kUnassigned))"
  using assms by (simp add: window_def widen_def)

lemma window_other:
  assumes "window pm nps rk T p w" and "nps ! t \<noteq> int p"
  shows "window pm nps rk (insert t T) p w"
  using assms by (simp add: window_def)

lemma window_widen:
  assumes c: "consistent pm nps rk n" and t: "t < length nps" and s: "nps ! t = int s"
    and T: "\<forall>u \<in> T. u < length nps" and w: "window pm nps rk T s w"
  shows "window pm nps rk (insert t T) s (widen pm rk t w)"
proof -
  obtain cs ce where w_eq: "w = (cs, ce)" by (cases w)
  have cs: "0 \<le> cs" "nat cs < length nps" "nps ! nat cs = int s"
    and ce: "0 \<le> ce" "nat ce < length nps" "nps ! nat ce = int s"
    using w by (simp_all add: window_def w_eq)
  have old: "\<And>u. u \<in> T \<Longrightarrow> nps ! u = int s \<Longrightarrow>
      rk ! nat cs \<le> rk ! u \<and> rk ! u \<le> rk ! nat ce \<and>
      (PathsMetadata_IsStart pm u \<longrightarrow> cs = int u) \<and> (PathsMetadata_IsEnd pm u \<longrightarrow> ce = int u)"
    using w by (simp add: window_def w_eq)
  have cs_ne: "cs \<noteq> kUnassigned" and ce_ne: "ce \<noteq> kUnassigned"
    using cs(1) ce(1) by (simp_all add: kUnassigned_def)
  define cs' where "cs' = (if PathsMetadata_IsStart pm t \<or> rk ! t < rk ! nat cs then int t else cs)"
  define ce' where "ce' = (if PathsMetadata_IsEnd pm t \<or> rk ! t > rk ! nat ce then int t else ce)"
  have wd: "widen pm rk t w = (cs', ce')"
    using cs_ne ce_ne by (simp add: widen_def w_eq cs'_def ce'_def)
  have on_cs: "0 \<le> cs' \<and> nat cs' < length nps \<and> nps ! nat cs' = int s"
    using cs t s by (simp add: cs'_def)
  have on_ce: "0 \<le> ce' \<and> nat ce' < length nps \<and> nps ! nat ce' = int s"
    using ce t s by (simp add: ce'_def)
  have low: "rk ! nat cs' \<le> rk ! u \<and> (PathsMetadata_IsStart pm u \<longrightarrow> cs' = int u)"
    if u: "u \<in> insert t T" "nps ! u = int s" for u
  proof -
    have ul: "u < length nps" using u(1) t T by auto
    show ?thesis
    proof (cases "PathsMetadata_IsStart pm t")
      case True
      then have ts: "t = s" using consistent_start[OF c t s] by simp
      have "rk ! s \<le> rk ! u" using consistent_start_rank[OF c ul u(2)] .
      moreover have "PathsMetadata_IsStart pm u \<longrightarrow> u = s"
        using consistent_start[OF c ul u(2)] by simp
      ultimately show ?thesis using True ts by (simp add: cs'_def)
    next
      case nst: False
      show ?thesis
      proof (cases "u = t")
        case True
        then show ?thesis using nst by (simp add: cs'_def)
      next
        case False
        then have uT: "u \<in> T" using u(1) by simp
        note o = old[OF uT u(2)]
        show ?thesis
        proof (cases "rk ! t < rk ! nat cs")
          case True
          have "\<not> PathsMetadata_IsStart pm u"
          proof
            assume su: "PathsMetadata_IsStart pm u"
            then have "cs = int u" using o by simp
            moreover have "u = s" using consistent_start[OF c ul u(2) su] .
            ultimately have "rk ! nat cs = rk ! s" by simp
            then show False using True consistent_start_rank[OF c t s] by simp
          qed
          moreover have "cs' = int t" using True by (simp add: cs'_def)
          ultimately show ?thesis using True o by simp
        next
          case False
          then have "cs' = cs" using nst by (simp add: cs'_def)
          then show ?thesis using o by simp
        qed
      qed
    qed
  qed
  have high: "rk ! u \<le> rk ! nat ce' \<and> (PathsMetadata_IsEnd pm u \<longrightarrow> ce' = int u)"
    if u: "u \<in> insert t T" "nps ! u = int s" for u
  proof -
    have ul: "u < length nps" using u(1) t T by auto
    show ?thesis
    proof (cases "PathsMetadata_IsEnd pm t")
      case True
      have "rk ! u \<le> rk ! t" using consistent_end_rank[OF c ul t u(2) s True] .
      moreover have "PathsMetadata_IsEnd pm u \<longrightarrow> u = t"
        using consistent_end_unique[OF c ul t u(2) s True] by simp
      ultimately show ?thesis using True by (simp add: ce'_def)
    next
      case nend: False
      show ?thesis
      proof (cases "u = t")
        case True
        then show ?thesis using nend by (simp add: ce'_def)
      next
        case False
        then have uT: "u \<in> T" using u(1) by simp
        note o = old[OF uT u(2)]
        show ?thesis
        proof (cases "rk ! t > rk ! nat ce")
          case True
          have "\<not> PathsMetadata_IsEnd pm u"
          proof
            assume eu: "PathsMetadata_IsEnd pm u"
            then have "ce = int u" using o by simp
            then have "rk ! nat ce = rk ! u" by simp
            then show False using True consistent_end_rank[OF c t ul s u(2) eu] by simp
          qed
          moreover have "ce' = int t" using True by (simp add: ce'_def)
          ultimately show ?thesis using True o by simp
        next
          case False
          then have "ce' = ce" using nend by (simp add: ce'_def)
          then show ?thesis using o by simp
        qed
      qed
    qed
  qed
  show ?thesis
    unfolding wd window_def using on_cs on_ce low high by simp
qed

text \<open>The invariant of the loop over the elements, \<open>T\<close> the nodes touched so far.\<close>

definition window_inv ::
  "PathsMetadata \<Rightarrow> int list \<Rightarrow> int list \<Rightarrow> BasePathFilter \<Rightarrow> nat set \<Rightarrow> bool" where
  "window_inv pm nps rk f T =
     (node_path_starts f = nps \<and> ranks f = rk \<and>
      (\<forall>t \<in> T. t < length nps) \<and>
      (\<forall>t \<in> T. nps ! t \<noteq> kUnassigned \<longrightarrow> nat (nps ! t) \<in> set (touched_paths f)) \<and>
      (\<forall>p < length (touched_path_chain_start_ends f). p \<notin> set (touched_paths f) \<longrightarrow>
         touched_path_chain_start_ends f ! p = (kUnassigned, kUnassigned)) \<and>
      (\<forall>p \<in> set (touched_paths f). p < length (touched_path_chain_start_ends f) \<and>
         window pm nps rk T p (touched_path_chain_start_ends f ! p)))"

lemma update_touched_path_chain_start_end_widen:
  "update_touched_path_chain_start_end pm t f =
     (if node_path_starts f ! t = kUnassigned then f
      else f\<lparr>touched_paths := SparseBitset_Set (nat (node_path_starts f ! t)) (touched_paths f),
             touched_path_chain_start_ends :=
               (touched_path_chain_start_ends f)[nat (node_path_starts f ! t) :=
                  widen pm (ranks f) t
                    (touched_path_chain_start_ends f ! nat (node_path_starts f ! t))]\<rparr>)"
  by (cases "touched_path_chain_start_ends f ! nat (node_path_starts f ! t)")
    (simp add: update_touched_path_chain_start_end_def widen_def Let_def)

lemma set_SparseBitset_Set:
  "set (SparseBitset_Set i ps) = insert i (set ps)"
  by (auto simp: SparseBitset_Set_def)

lemma update_frame:
  "node_path_starts (update_touched_path_chain_start_end pm t f) = node_path_starts f"
  "ranks (update_touched_path_chain_start_end pm t f) = ranks f"
  "new_nexts (update_touched_path_chain_start_end pm t f) = new_nexts f"
  "delta_touched (update_touched_path_chain_start_end pm t f) = delta_touched f"
  "lns_detected (update_touched_path_chain_start_end pm t f) = lns_detected f"
  "length (touched_path_chain_start_ends (update_touched_path_chain_start_end pm t f))
     = length (touched_path_chain_start_ends f)"
  by (simp_all add: update_touched_path_chain_start_end_widen)

lemma update_window_inv:
  assumes c: "consistent pm nps rk (length (touched_path_chain_start_ends f))"
    and inv: "window_inv pm nps rk f T" and t: "t < length nps"
  shows "window_inv pm nps rk (update_touched_path_chain_start_end pm t f) (insert t T)"
proof (cases "nps ! t = kUnassigned")
  case True
  have nps: "node_path_starts f = nps" using inv by (simp add: window_inv_def)
  have same: "update_touched_path_chain_start_end pm t f = f"
    using True nps by (simp add: update_touched_path_chain_start_end_widen)
  have "window pm nps rk (insert t T) p w" if "window pm nps rk T p w" for p w
    using that True by (intro window_other) (simp_all add: kUnassigned_def)
  then show ?thesis
    using inv True t unfolding same window_inv_def by simp
next
  case False
  define tp where "tp = touched_paths f"
  define ws where "ws = touched_path_chain_start_ends f"
  have nps: "node_path_starts f = nps" and rk: "ranks f = rk"
    and Tl: "\<forall>u \<in> T. u < length nps"
    and Tp: "\<And>u. u \<in> T \<Longrightarrow> nps ! u \<noteq> kUnassigned \<Longrightarrow> nat (nps ! u) \<in> set tp"
    and unt: "\<And>p. p < length ws \<Longrightarrow> p \<notin> set tp \<Longrightarrow> ws ! p = (kUnassigned, kUnassigned)"
    and tch: "\<And>p. p \<in> set tp \<Longrightarrow> p < length ws \<and> window pm nps rk T p (ws ! p)"
    using inv by (simp_all add: window_inv_def tp_def ws_def)
  define s where "s = nat (nps ! t)"
  have s: "nps ! t = int s"
    using c t False by (simp add: consistent_def s_def)
  have sl: "s < length ws"
    using consistent_start_in_range[OF c t s] by (simp add: ws_def)
  define f' where "f' = update_touched_path_chain_start_end pm t f"
  have tp': "set (touched_paths f') = insert s (set tp)"
    and ws': "touched_path_chain_start_ends f' = ws[s := widen pm rk t (ws ! s)]"
    using False nps rk
    by (simp_all add: f'_def update_touched_path_chain_start_end_widen set_SparseBitset_Set
        tp_def ws_def s_def)
  have fr: "node_path_starts f' = nps" "ranks f' = rk"
    using nps rk by (simp_all add: f'_def update_frame)
  have a: "\<forall>u \<in> insert t T. u < length nps" using Tl t by simp
  have b: "\<forall>u \<in> insert t T. nps ! u \<noteq> kUnassigned \<longrightarrow> nat (nps ! u) \<in> set (touched_paths f')"
    using Tp tp' s by auto
  have u': "\<forall>p < length (touched_path_chain_start_ends f'). p \<notin> set (touched_paths f') \<longrightarrow>
      touched_path_chain_start_ends f' ! p = (kUnassigned, kUnassigned)"
    using unt by (simp add: tp' ws')
  have ws_s: "window pm nps rk (insert t T) s (widen pm rk t (ws ! s))"
  proof (cases "s \<in> set tp")
    case True
    have c': "consistent pm nps rk (length ws)" using c by (simp add: ws_def)
    show ?thesis using window_widen[OF c' t s Tl] tch[OF True] by simp
  next
    case nin: False
    have "\<forall>u \<in> T. nps ! u \<noteq> int s"
    proof
      fix u assume u: "u \<in> T"
      show "nps ! u \<noteq> int s"
      proof
        assume e: "nps ! u = int s"
        then have "nps ! u \<noteq> kUnassigned" by (simp add: kUnassigned_def)
        from Tp[OF u this] show False using nin e by simp
      qed
    qed
    then show ?thesis using window_first[OF t s] unt[OF sl nin] by simp
  qed
  have w': "\<forall>p \<in> set (touched_paths f'). p < length (touched_path_chain_start_ends f') \<and>
      window pm nps rk (insert t T) p (touched_path_chain_start_ends f' ! p)"
  proof
    fix p assume p: "p \<in> set (touched_paths f')"
    show "p < length (touched_path_chain_start_ends f') \<and>
      window pm nps rk (insert t T) p (touched_path_chain_start_ends f' ! p)"
    proof (cases "p = s")
      case True
      then show ?thesis using ws_s sl by (simp add: ws')
    next
      case False
      then have ptp: "p \<in> set tp" using p tp' by simp
      have "nps ! t \<noteq> int p" using s False by simp
      then have "window pm nps rk (insert t T) p (ws ! p)"
        using tch[OF ptp] by (intro window_other) simp_all
      then show ?thesis using False tch[OF ptp] by (simp add: ws')
    qed
  qed
  show ?thesis
    unfolding window_inv_def f'_def[symmetric] using fr a b u' w' by simp
qed

lemma delta_in_range_lengths:
  "length (new_nexts g) = length (new_nexts f) \<Longrightarrow>
   length (node_path_starts g) = length (node_path_starts f) \<Longrightarrow>
   delta_in_range FindIndex g delta = delta_in_range FindIndex f delta"
  by (simp add: delta_in_range_def cong: option.case_cong)

lemma window_inv_new_nexts:
  "window_inv pm nps rk (f\<lparr>new_nexts := nn, delta_touched := dt\<rparr>) T = window_inv pm nps rk f T"
  by (simp add: window_inv_def)

lemma accept_elements_window_inv:
  assumes "consistent pm nps rk (length (touched_path_chain_start_ends f))"
    and "\<not> has_unbound_element FindIndex delta"
    and "delta_in_range FindIndex f delta"
    and "window_inv pm nps rk f T"
  shows "window_inv pm nps rk (snd (accept_elements pm FindIndex delta f))
           (T \<union> set (touched_nodes FindIndex delta))"
  using assms
proof (induction delta arbitrary: f T)
  case Nil
  then show ?case by (simp add: touched_nodes_def)
next
  case (Cons e es)
  have bound_es: "\<not> has_unbound_element FindIndex es"
    using Cons.prems(2) by (simp add: has_unbound_element_def)
  have range_es: "delta_in_range FindIndex f es"
    using Cons.prems(3) by (simp add: delta_in_range_def)
  show ?case
  proof (cases "FindIndex (Var e)")
    case None
    have "touched_nodes FindIndex (e # es) = touched_nodes FindIndex es"
      using None by (simp add: touched_nodes_def)
    then show ?thesis
      using Cons.IH[OF Cons.prems(1) bound_es range_es Cons.prems(4)] None by simp
  next
    case (Some index)
    have b: "Bound e" using Cons.prems(2) Some by (simp add: has_unbound_element_def)
    have nps: "node_path_starts f = nps" using Cons.prems(4) by (simp add: window_inv_def)
    have il: "index < length (new_nexts f)" "index < length nps"
      and vl: "nat (Value_e e) < length nps"
      using Cons.prems(3) Some nps by (simp_all add: delta_in_range_def)
    define f1 where "f1 = f\<lparr>new_nexts := (new_nexts f)[index := Value_e e],
                             delta_touched := delta_touched f @ [index]\<rparr>"
    define f2 where "f2 = update_touched_path_chain_start_end pm index f1"
    define f3 where "f3 = update_touched_path_chain_start_end pm (nat (Value_e e)) f2"
    have nn: "new_nexts f2 ! index = Value_e e"
      using il(1) by (simp add: f2_def f1_def update_frame)
    have step: "accept_elements pm FindIndex (e # es) f = accept_elements pm FindIndex es f3"
      using Some b nn unfolding f3_def f2_def f1_def by (simp add: Let_def)
    have l1: "length (touched_path_chain_start_ends f1) = length (touched_path_chain_start_ends f)"
      by (simp add: f1_def)
    have l2: "length (touched_path_chain_start_ends f2) = length (touched_path_chain_start_ends f)"
      by (simp add: f2_def update_frame l1)
    have l3: "length (touched_path_chain_start_ends f3) = length (touched_path_chain_start_ends f)"
      by (simp add: f3_def update_frame l2)
    have i1: "window_inv pm nps rk f1 T"
      using Cons.prems(4) unfolding f1_def by (simp only: window_inv_new_nexts)
    have i2: "window_inv pm nps rk f2 (insert index T)"
      unfolding f2_def using Cons.prems(1) i1 il(2) by (intro update_window_inv) (simp_all add: l1)
    have i3: "window_inv pm nps rk f3 (insert (nat (Value_e e)) (insert index T))"
      unfolding f3_def using Cons.prems(1) i2 vl by (intro update_window_inv) (simp_all add: l2)
    have c3: "consistent pm nps rk (length (touched_path_chain_start_ends f3))"
      using Cons.prems(1) by (simp add: l3)
    have "length (new_nexts f3) = length (new_nexts f)"
      and "length (node_path_starts f3) = length (node_path_starts f)"
      by (simp_all add: f3_def f2_def f1_def update_frame)
    then have r3: "delta_in_range FindIndex f3 es"
      using range_es delta_in_range_lengths[of f3 f FindIndex es] by simp
    have tn: "insert (nat (Value_e e)) (insert index T) \<union> set (touched_nodes FindIndex es)
        = T \<union> set (touched_nodes FindIndex (e # es))"
      using Some by (auto simp: touched_nodes_def)
    show ?thesis
      using Cons.IH[OF c3 bound_es r3 i3] unfolding step tn .
  qed
qed

text \<open>Every call of \<open>AcceptPath\<close> in the loop over the touched paths is for a touched path
  and its window.\<close>

lemma accept_paths_calls:
  assumes "CallAcceptPath s cs ce \<in> set (fst (snd (accept_paths cb f starts calls c)))"
  shows "CallAcceptPath s cs ce \<in> set calls \<or>
         (s \<in> set starts \<and> (cs, ce) = touched_path_chain_start_ends f ! s)"
  using assms
proof (induction starts arbitrary: calls c)
  case Nil
  then show ?case by simp
next
  case (Cons p ps)
  obtain ok c1 where a: "AcceptPath cb f p (fst (touched_path_chain_start_ends f ! p))
      (snd (touched_path_chain_start_ends f ! p)) c = (ok, c1)"
    by (cases "AcceptPath cb f p (fst (touched_path_chain_start_ends f ! p))
      (snd (touched_path_chain_start_ends f ! p)) c")
  define calls1 where "calls1 = calls @ [CallAcceptPath p
      (fst (touched_path_chain_start_ends f ! p)) (snd (touched_path_chain_start_ends f ! p))]"
  have in1: "CallAcceptPath s cs ce \<in> set calls1 \<Longrightarrow> ?case"
    by (auto simp: calls1_def)
  show ?case
  proof (cases ok)
    case True
    then have "accept_paths cb f (p # ps) calls c = accept_paths cb f ps calls1 c1"
      using a by (simp add: Let_def calls1_def)
    then have "CallAcceptPath s cs ce \<in> set (fst (snd (accept_paths cb f ps calls1 c1)))"
      using Cons.prems by simp
    from Cons.IH[OF this] show ?thesis using in1 by auto
  next
    case False
    then have "accept_paths cb f (p # ps) calls c = (False, calls1, c1)"
      using a by (simp add: Let_def calls1_def)
    then show ?thesis using Cons.prems in1 by simp
  qed
qed

lemma length_fold_list_update:
  "length (fold (\<lambda>i xs. xs[i := v]) is xs) = length xs"
  by (induction "is" arbitrary: xs) simp_all

lemma nth_fold_list_update:
  "i < length xs \<Longrightarrow> fold (\<lambda>i xs. xs[i := v]) is xs ! i = (if i \<in> set is then v else xs ! i)"
proof (induction "is" arbitrary: xs)
  case Nil
  then show ?case by simp
next
  case (Cons j js)
  have "i < length (xs[j := v])" using Cons.prems by simp
  from Cons.IH[OF this] show ?case using Cons.prems by (auto simp: nth_list_update)
qed

text \<open>The windows are reset after the constructor, and \<open>Accept\<close> leaves them so.\<close>

lemma windows_reset_init:
  "windows_reset (BasePathFilter_init nexts_size next_domain_size)"
  by (simp add: windows_reset_def BasePathFilter_init_def list_all_iff)

lemma update_windows_reset:
  assumes "windows_reset f"
  shows "windows_reset (update_touched_path_chain_start_end pm t f)"
  using assms
  by (auto simp: windows_reset_def list_all_iff update_touched_path_chain_start_end_widen
      set_SparseBitset_Set nth_list_update)

lemma accept_elements_windows_reset:
  "windows_reset f \<Longrightarrow> windows_reset (snd (accept_elements pm FindIndex delta f))"
proof (induction delta arbitrary: f)
  case Nil
  then show ?case by simp
next
  case (Cons e es)
  show ?case
  proof (cases "FindIndex (Var e)")
    case None
    then show ?thesis using Cons.IH[OF Cons.prems] by simp
  next
    case (Some index)
    show ?thesis
    proof (cases "Bound e")
      case True
      define f1 where "f1 = f\<lparr>new_nexts := (new_nexts f)[index := Value_e e],
                               delta_touched := delta_touched f @ [index]\<rparr>"
      define f2 where "f2 = update_touched_path_chain_start_end pm index f1"
      define f3 where
        "f3 = update_touched_path_chain_start_end pm (nat (new_nexts f2 ! index)) f2"
      have "windows_reset f1" using Cons.prems by (simp add: windows_reset_def f1_def)
      then have "windows_reset f3"
        unfolding f3_def f2_def by (intro update_windows_reset)
      moreover have "accept_elements pm FindIndex (e # es) f = accept_elements pm FindIndex es f3"
        using Some True unfolding f3_def f2_def f1_def by (simp add: Let_def)
      ultimately show ?thesis using Cons.IH[of f3] by simp
    next
      case False
      then show ?thesis using Some Cons.prems by (simp add: windows_reset_def)
    qed
  qed
qed

lemma BasePathFilter_Accept_windows_reset:
  assumes "windows_reset f"
  shows "windows_reset (snd (snd (snd
    (BasePathFilter_Accept pm FindIndex cb f c delta objective_min objective_max))))"
proof (cases "IsDisabled f")
  case True
  then show ?thesis using assms by (simp add: BasePathFilter_Accept_def)
next
  case False
  define f2 where "f2 = f\<lparr>lns_detected := False,
       new_nexts := fold (\<lambda>touched nexts. nexts[touched := kUnassigned])
                      (delta_touched f) (new_nexts f),
       delta_touched := [],
       touched_path_chain_start_ends :=
         fold (\<lambda>touched_path ends. ends[touched_path := (kUnassigned, kUnassigned)])
           (touched_paths f) (touched_path_chain_start_ends f),
       touched_paths := []\<rparr>"
  obtain lns f3 where r: "accept_elements pm FindIndex delta f2 = (lns, f3)"
    by (cases "accept_elements pm FindIndex delta f2")
  have "touched_path_chain_start_ends f2 ! q = (kUnassigned, kUnassigned)"
    if "q < length (touched_path_chain_start_ends f)" for q
  proof -
    have "q \<in> set (touched_paths f) \<or>
        touched_path_chain_start_ends f ! q = (kUnassigned, kUnassigned)"
      using assms that by (simp add: windows_reset_def list_all_iff)
    then show ?thesis
      using that by (auto simp: f2_def nth_fold_list_update)
  qed
  then have "windows_reset f2"
    by (simp add: windows_reset_def list_all_iff f2_def length_fold_list_update)
  then have w3: "windows_reset f3"
    using accept_elements_windows_reset[of f2 pm FindIndex delta] r by simp
  obtain initialized c1 where i: "InitializeAcceptPath cb f3 c = (initialized, c1)"
    by (cases "InitializeAcceptPath cb f3 c")
  obtain accepted calls c2 where
    p: "accept_paths cb f3 (touched_paths f3) [CallInitializeAcceptPath] c1 = (accepted, calls, c2)"
    by (cases "accept_paths cb f3 (touched_paths f3) [CallInitializeAcceptPath] c1")
  obtain finalized c3 where
    z: "FinalizeAcceptPath cb f3 objective_min objective_max c2 = (finalized, c3)"
    by (cases "FinalizeAcceptPath cb f3 objective_min objective_max c2")
  have "snd (snd (snd
    (BasePathFilter_Accept pm FindIndex cb f c delta objective_min objective_max))) = f3"
    using False r i p z unfolding BasePathFilter_Accept_def Let_def f2_def by simp
  then show ?thesis using w3 by simp
qed

text \<open>From a filter whose starts and ranks are consistent and whose windows are reset, as
  after the constructor and a synchronization of the whole assignment, every call of
  \<open>AcceptPath\<close> that \<open>Accept\<close> makes is for a window \<open>(chain_start, chain_end)\<close> of two nodes
  of the path, with \<open>rank(chain_start) \<le> rank(t) \<le> rank(chain_end)\<close> for every touched node
  \<open>t\<close> of the path, \<open>chain_start\<close> the start of the path when it is touched and \<open>chain_end\<close>
  its end when it is touched; the delta indexing inside the vectors.\<close>

theorem BasePathFilter_Accept_chain_window:
  assumes rc: "ranks_consistent pm f" and wr: "windows_reset f"
    and dr: "delta_in_range FindIndex f delta"
    and call: "CallAcceptPath path_start chain_start chain_end \<in>
       set (fst (snd (BasePathFilter_Accept pm FindIndex cb f c delta objective_min objective_max)))"
  shows "chain_window pm f (touched_nodes FindIndex delta) path_start chain_start chain_end"
proof -
  define f2 where "f2 = f\<lparr>lns_detected := False,
       new_nexts := fold (\<lambda>touched nexts. nexts[touched := kUnassigned])
                      (delta_touched f) (new_nexts f),
       delta_touched := [],
       touched_path_chain_start_ends :=
         fold (\<lambda>touched_path ends. ends[touched_path := (kUnassigned, kUnassigned)])
           (touched_paths f) (touched_path_chain_start_ends f),
       touched_paths := []\<rparr>"
  obtain lns f3 where r: "accept_elements pm FindIndex delta f2 = (lns, f3)"
    by (cases "accept_elements pm FindIndex delta f2")
  have enabled: "\<not> IsDisabled f"
    using call by (auto simp: BasePathFilter_Accept_def)
  have acc: "BasePathFilter_Accept pm FindIndex cb f c delta objective_min objective_max =
     (if lns then (True, [], c, f3)
      else
        let (initialized, c1) = InitializeAcceptPath cb f3 c in
        if \<not> initialized then (False, [CallInitializeAcceptPath], c1, f3)
        else
          let (accepted, calls, c2) =
                accept_paths cb f3 (touched_paths f3) [CallInitializeAcceptPath] c1 in
          if \<not> accepted then (False, calls, c2, f3)
          else
            let (finalized, c3) = FinalizeAcceptPath cb f3 objective_min objective_max c2
            in (finalized, calls @ [CallFinalizeAcceptPath objective_min objective_max],
                c3, f3))"
    using enabled r unfolding BasePathFilter_Accept_def Let_def f2_def by simp
  have bound: "\<not> has_unbound_element FindIndex delta"
  proof
    assume "has_unbound_element FindIndex delta"
    then have "lns" using accept_elements_lns[of pm FindIndex delta f2] r by simp
    then show False using call acc by simp
  qed
  then have nlns: "\<not> lns" using accept_elements_lns[of pm FindIndex delta f2] r by simp
  obtain initialized c1 where i: "InitializeAcceptPath cb f3 c = (initialized, c1)"
    by (cases "InitializeAcceptPath cb f3 c")
  obtain accepted calls c2 where
    p: "accept_paths cb f3 (touched_paths f3) [CallInitializeAcceptPath] c1 = (accepted, calls, c2)"
    by (cases "accept_paths cb f3 (touched_paths f3) [CallInitializeAcceptPath] c1")
  have "CallAcceptPath path_start chain_start chain_end \<in> set calls"
    using call nlns i p unfolding acc
    by (auto simp: Let_def split: if_splits prod.splits)
  then have "CallAcceptPath path_start chain_start chain_end \<in>
      set (fst (snd (accept_paths cb f3 (touched_paths f3) [CallInitializeAcceptPath] c1)))"
    using p by simp
  from accept_paths_calls[OF this]
  have touched: "path_start \<in> set (touched_paths f3)"
    and win: "(chain_start, chain_end) = touched_path_chain_start_ends f3 ! path_start"
    by simp_all
  have l2: "length (touched_path_chain_start_ends f2) = length (touched_path_chain_start_ends f)"
    by (simp add: f2_def length_fold_list_update)
  have c2: "consistent pm (node_path_starts f) (ranks f) (length (touched_path_chain_start_ends f2))"
    using ranks_consistent_consistent[OF rc] by (simp add: l2)
  have reset: "touched_path_chain_start_ends f2 ! q = (kUnassigned, kUnassigned)"
    if "q < length (touched_path_chain_start_ends f)" for q
  proof -
    have "q \<in> set (touched_paths f) \<or>
        touched_path_chain_start_ends f ! q = (kUnassigned, kUnassigned)"
      using wr that by (simp add: windows_reset_def list_all_iff)
    then show ?thesis
      using that by (auto simp: f2_def nth_fold_list_update)
  qed
  have i2: "window_inv pm (node_path_starts f) (ranks f) f2 {}"
    unfolding window_inv_def using reset l2 by (simp add: f2_def)
  have "length (new_nexts f2) = length (new_nexts f)"
    and "length (node_path_starts f2) = length (node_path_starts f)"
    by (simp_all add: f2_def length_fold_list_update)
  then have d2: "delta_in_range FindIndex f2 delta"
    using dr delta_in_range_lengths[of f2 f FindIndex delta] by simp
  have "window_inv pm (node_path_starts f) (ranks f) f3 (set (touched_nodes FindIndex delta))"
    using accept_elements_window_inv[OF c2 bound d2 i2] r by simp
  then have "window pm (node_path_starts f) (ranks f) (set (touched_nodes FindIndex delta))
      path_start (touched_path_chain_start_ends f3 ! path_start)"
    using touched by (simp add: window_inv_def)
  then show ?thesis
    unfolding chain_window_window win[symmetric] .
qed

definition P_delta_end :: "IntVarElement list" where
  "P_delta_end = [\<lparr>Var = 3, Min_e = 4, Max_e = 4\<rparr>, \<lparr>Var = 4, Min_e = 5, Max_e = 5\<rparr>]"

theorem BasePathFilter_chain_window_witness:
  "SynchronizeFullAssignment P_metadata (\<lambda>i. True) P_Value
       ((BasePathFilter_init 5 6)\<lparr>status := ENABLED\<rparr>) = Some P_filter \<and>
   ranks_consistent P_metadata P_filter \<and> windows_reset P_filter \<and>
   delta_in_range P_FindIndex P_filter P_delta \<and>
   delta_in_range P_FindIndex P_filter P_delta_end \<and>
   fst (snd (BasePathFilter_Accept P_metadata P_FindIndex P_callbacks P_filter 0 P_delta 0 100))
     = [CallInitializeAcceptPath, CallAcceptPath 0 1 2, CallFinalizeAcceptPath 0 100] \<and>
   touched_nodes P_FindIndex P_delta = [1, 4, 4, 2] \<and>
   chain_window P_metadata P_filter [1, 4, 4, 2] 0 1 2 \<and>
   fst (snd (BasePathFilter_Accept P_metadata P_FindIndex P_callbacks P_filter 0 P_delta_end 0 100))
     = [CallInitializeAcceptPath, CallAcceptPath 0 3 5, CallFinalizeAcceptPath 0 100] \<and>
   touched_nodes P_FindIndex P_delta_end = [3, 4, 4, 5] \<and>
   chain_window P_metadata P_filter [3, 4, 4, 5] 0 3 5"
proof -
  have sync: "SynchronizeFullAssignment P_metadata (\<lambda>i. True) P_Value
       ((BasePathFilter_init 5 6)\<lparr>status := ENABLED\<rparr>) = Some P_filter"
    by code_simp
  have rc: "ranks_consistent P_metadata P_filter" and wr: "windows_reset P_filter"
    and d1: "delta_in_range P_FindIndex P_filter P_delta"
    and d2: "delta_in_range P_FindIndex P_filter P_delta_end"
    by code_simp+
  have t1: "fst (snd (BasePathFilter_Accept P_metadata P_FindIndex P_callbacks P_filter 0 P_delta 0 100))
     = [CallInitializeAcceptPath, CallAcceptPath 0 1 2, CallFinalizeAcceptPath 0 100]"
    and t2: "fst (snd (BasePathFilter_Accept P_metadata P_FindIndex P_callbacks P_filter 0
        P_delta_end 0 100))
     = [CallInitializeAcceptPath, CallAcceptPath 0 3 5, CallFinalizeAcceptPath 0 100]"
    by code_simp+
  have n1: "touched_nodes P_FindIndex P_delta = [1, 4, 4, 2]"
    and n2: "touched_nodes P_FindIndex P_delta_end = [3, 4, 4, 5]"
    by code_simp+
  have c1: "chain_window P_metadata P_filter [1, 4, 4, 2] 0 1 2"
    using BasePathFilter_Accept_chain_window[OF rc wr d1, of 0 1 2 P_callbacks 0 0 100]
    unfolding t1 n1 by simp
  have c2: "chain_window P_metadata P_filter [3, 4, 4, 5] 0 3 5"
    using BasePathFilter_Accept_chain_window[OF rc wr d2, of 0 3 5 P_callbacks 0 0 100]
    unfolding t2 n2 by simp
  show ?thesis using sync rc wr d1 d2 t1 t2 n1 n2 c1 c2 by blast
qed

subsection \<open>Two paths and a synchronization on another delta\<close>

text \<open>Two vehicles: \<open>0 \<rightarrow> 2 \<rightarrow> 3 \<rightarrow> 7\<close> and \<open>1 \<rightarrow> 4 \<rightarrow> 5 \<rightarrow> 8\<close>, node 6 unperformed. The nodes
  0 to 6 have a next variable, 7 and 8 are the ends.\<close>

definition Q_metadata :: PathsMetadata where
  "Q_metadata = \<lparr>Starts = [0, 1], Ends = [7, 8]\<rparr>"

definition Q_FindIndex :: "nat \<Rightarrow> nat option" where
  "Q_FindIndex v = (if v < 7 then Some v else None)"

definition Q_nexts :: "int list" where
  "Q_nexts = [2, 4, 3, 7, 5, 8, 6]"

text \<open>The neighbor that takes node 5 off its path, with an element for the arc from 2 to 3
  that it leaves as it is; and the same change without that element.\<close>

definition Q_delta :: "IntVarElement list" where
  "Q_delta = [\<lparr>Var = 2, Min_e = 3, Max_e = 3\<rparr>, \<lparr>Var = 4, Min_e = 8, Max_e = 8\<rparr>,
              \<lparr>Var = 5, Min_e = 5, Max_e = 5\<rparr>]"

definition Q_delta_sync :: "IntVarElement list" where
  "Q_delta_sync = [\<lparr>Var = 4, Min_e = 8, Max_e = 8\<rparr>, \<lparr>Var = 5, Min_e = 5, Max_e = 5\<rparr>]"

text \<open>Another assignment: \<open>0 \<rightarrow> 3 \<rightarrow> 5 \<rightarrow> 7\<close> and \<open>1 \<rightarrow> 4 \<rightarrow> 2 \<rightarrow> 8\<close>, node 6 unperformed; and the
  neighbor of it that inserts node 6 between 5 and 7.\<close>

definition Q_nexts_restart :: "int list" where
  "Q_nexts_restart = [3, 4, 8, 5, 2, 7, 6]"

definition Q_delta_insert :: "IntVarElement list" where
  "Q_delta_insert = [\<lparr>Var = 5, Min_e = 6, Max_e = 6\<rparr>, \<lparr>Var = 6, Min_e = 7, Max_e = 7\<rparr>]"

text \<open>The filter after each step: the first synchronization, \<open>Accept\<close> of the neighbor, the
  synchronization on the delta without the unchanged arc, the synchronization of the
  other assignment.\<close>

definition Q_synchronized :: BasePathFilter where
  "Q_synchronized =
     \<lparr>node_path_starts = [0, 1, 0, 0, 1, 1, - 1, 0, 1],
      new_nexts = [- 1, - 1, - 1, - 1, - 1, - 1, - 1],
      delta_touched = [],
      touched_paths = [],
      touched_path_chain_start_ends =
        [(- 1, - 1), (- 1, - 1), (- 1, - 1), (- 1, - 1), (- 1, - 1), (- 1, - 1), (- 1, - 1)],
      ranks = [0, 0, 1, 2, 1, 2, - 1, 3, 3],
      status = ENABLED, lns_detected = False\<rparr>"


definition Q_accepted :: BasePathFilter where
  "Q_accepted =
     \<lparr>node_path_starts = [0, 1, 0, 0, 1, 1, - 1, 0, 1],
      new_nexts = [- 1, - 1, 3, - 1, 8, 5, - 1],
      delta_touched = [2, 4, 5],
      touched_paths = [0, 1],
      touched_path_chain_start_ends =
        [(2, 3), (4, 8), (- 1, - 1), (- 1, - 1), (- 1, - 1), (- 1, - 1), (- 1, - 1)],
      ranks = [0, 0, 1, 2, 1, 2, - 1, 3, 3],
      status = ENABLED, lns_detected = False\<rparr>"

definition Q_resynchronized :: BasePathFilter where
  "Q_resynchronized =
     \<lparr>node_path_starts = [0, 1, 0, 0, 1, - 1, - 1, 0, 1],
      new_nexts = [- 1, - 1, - 1, - 1, - 1, - 1, - 1],
      delta_touched = [],
      touched_paths = [1],
      touched_path_chain_start_ends =
        [(2, 3), (4, 8), (- 1, - 1), (- 1, - 1), (- 1, - 1), (- 1, - 1), (- 1, - 1)],
      ranks = [0, 0, 1, 2, 1, 2, - 1, 3, 2],
      status = ENABLED, lns_detected = False\<rparr>"

definition Q_restarted :: BasePathFilter where
  "Q_restarted =
     \<lparr>node_path_starts = [0, 1, 1, 0, 1, 0, - 1, 0, 1],
      new_nexts = [- 1, - 1, - 1, - 1, - 1, - 1, - 1],
      delta_touched = [],
      touched_paths = [1],
      touched_path_chain_start_ends =
        [(2, 3), (4, 8), (- 1, - 1), (- 1, - 1), (- 1, - 1), (- 1, - 1), (- 1, - 1)],
      ranks = [0, 0, 2, 1, 1, 2, - 1, 3, 3],
      status = ENABLED, lns_detected = False\<rparr>"

text \<open>C2. The claim fails on the code. \<open>Accept\<close> resets the windows of the paths marked
  touched and then clears the marks; the incremental \<open>OnSynchronize\<close> clears the marks and
  leaves the windows. After \<open>Accept\<close> of a neighbor that touches the paths 0 and 1, a
  synchronization on a delta that touches path 1 only leaves the window \<open>(2, 3)\<close> of path
  0 with path 0 unmarked. After a synchronization of another whole assignment, where node
  2 is on path 1, \<open>Accept\<close> of a delta whose elements are all bound and that touches the
  nodes 5 and 7 of path 0 calls \<open>AcceptPath(0, 2, 7)\<close>: the chain start is not on the
  path.\<close>

theorem BasePathFilter_stale_chain_window:
  "BasePathFilter_OnSynchronize Q_metadata Q_FindIndex (\<lambda>i. True) (\<lambda>i. Q_nexts ! i) False None
     (BasePathFilter_init 7 9) = Some Q_synchronized \<and>
   BasePathFilter_Accept Q_metadata Q_FindIndex P_callbacks Q_synchronized 0 Q_delta 0 100 =
     (True, [CallInitializeAcceptPath, CallAcceptPath 0 2 3, CallAcceptPath 1 4 8,
             CallFinalizeAcceptPath 0 100], 4, Q_accepted) \<and>
   BasePathFilter_OnSynchronize Q_metadata Q_FindIndex (\<lambda>i. True)
     (\<lambda>i. Q_nexts[4 := 8, 5 := 5] ! i) False (Some Q_delta_sync) Q_accepted
     = Some Q_resynchronized \<and>
   touched_paths Q_resynchronized = [1] \<and>
   touched_path_chain_start_ends Q_resynchronized ! 0 = (2, 3) \<and>
   BasePathFilter_OnSynchronize Q_metadata Q_FindIndex (\<lambda>i. True) (\<lambda>i. Q_nexts_restart ! i)
     False None Q_resynchronized = Some Q_restarted \<and>
   node_path_starts Q_restarted ! 2 = 1 \<and>
   list_all Bound Q_delta_insert \<and>
   touched_nodes Q_FindIndex Q_delta_insert = [5, 6, 6, 7] \<and>
   fst (snd (BasePathFilter_Accept Q_metadata Q_FindIndex P_callbacks Q_restarted 0
               Q_delta_insert 0 100)) =
     [CallInitializeAcceptPath, CallAcceptPath 0 2 7, CallFinalizeAcceptPath 0 100]"
  by code_simp

section \<open>Elements that are not bound\<close>

text \<open>The delta of a large neighborhood search: node 3 may stay inactive or get a next.\<close>

definition L_delta :: "IntVarElement list" where
  "L_delta = [\<lparr>Var = 3, Min_e = 3, Max_e = 7\<rparr>]"

text \<open>C3 (amended). If the delta has an element of one of the filter's variables that is
  not bound: an enabled \<open>BasePathFilter\<close> accepts before any call of
  \<open>InitializeAcceptPath\<close>, \<open>AcceptPath\<close> or \<open>FinalizeAcceptPath\<close>, raises its flag, and the
  objective value of the neighbor is 0; \<open>NodeDisjunctionFilter\<close> accepts exactly when no
  changed disjunction has more active nodes than its maximum cardinality, and then its
  accepted objective value is 0.\<close>

theorem unbound_element_accept:
  assumes "has_unbound_element FindIndex delta"
  shows "(\<not> IsDisabled f \<longrightarrow>
      fst (BasePathFilter_Accept pm FindIndex cb f c delta objective_min objective_max) \<and>
      fst (snd (BasePathFilter_Accept pm FindIndex cb f c delta objective_min objective_max)) = [] \<and>
      lns_detected (snd (snd (snd
        (BasePathFilter_Accept pm FindIndex cb f c delta objective_min objective_max)))) \<and>
      GetAcceptedObjectiveValue (snd (snd (snd
        (BasePathFilter_Accept pm FindIndex cb f c delta objective_min objective_max))))
        delta_vehicle_cost = 0) \<and>
    fst (NodeDisjunction_Accept m FindIndex IsVarSynced Value g delta objective_max) =
      cardinalities_respected m (counts_after m FindIndex IsVarSynced Value g delta) \<and>
    (cardinalities_respected m (counts_after m FindIndex IsVarSynced Value g delta) \<longrightarrow>
      accepted_objective_value
        (snd (NodeDisjunction_Accept m FindIndex IsVarSynced Value g delta objective_max)) = 0)"
proof -
  have "GetAcceptedObjectiveValue h delta_vehicle_cost = 0" if "lns_detected h" for h
    using that by (simp add: GetAcceptedObjectiveValue_def)
  then have skeleton: "\<not> IsDisabled f \<Longrightarrow>
      fst (BasePathFilter_Accept pm FindIndex cb f c delta objective_min objective_max) \<and>
      fst (snd (BasePathFilter_Accept pm FindIndex cb f c delta objective_min objective_max)) = [] \<and>
      lns_detected (snd (snd (snd
        (BasePathFilter_Accept pm FindIndex cb f c delta objective_min objective_max)))) \<and>
      GetAcceptedObjectiveValue (snd (snd (snd
        (BasePathFilter_Accept pm FindIndex cb f c delta objective_min objective_max))))
        delta_vehicle_cost = 0"
    using BasePathFilter_Accept_lns[OF _ assms, of f pm cb c objective_min objective_max]
    by blast
  show ?thesis
    using skeleton NodeDisjunction_Accept_lns[OF assms, of m IsVarSynced Value g objective_max]
    by simp
qed

theorem unbound_element_accept_witness:
  "has_unbound_element S2_FindIndex L_delta \<and>
   \<not> IsDisabled P_filter \<and>
   cardinalities_respected S2_model
     (counts_after S2_model S2_FindIndex (\<lambda>i. True) S2_Value (S2_filter True) L_delta) \<and>
   fst (BasePathFilter_Accept P_metadata S2_FindIndex P_callbacks P_filter 0 L_delta 0 100) \<and>
   fst (snd (BasePathFilter_Accept P_metadata S2_FindIndex P_callbacks P_filter 0 L_delta 0 100))
     = [] \<and>
   lns_detected (snd (snd (snd
     (BasePathFilter_Accept P_metadata S2_FindIndex P_callbacks P_filter 0 L_delta 0 100)))) \<and>
   GetAcceptedObjectiveValue (snd (snd (snd
     (BasePathFilter_Accept P_metadata S2_FindIndex P_callbacks P_filter 0 L_delta 0 100)))) 12 = 0 \<and>
   fst (NodeDisjunction_Accept S2_model S2_FindIndex (\<lambda>i. True) S2_Value (S2_filter True)
          L_delta 100) \<and>
   accepted_objective_value
     (snd (NodeDisjunction_Accept S2_model S2_FindIndex (\<lambda>i. True) S2_Value (S2_filter True)
          L_delta 100)) = 0"
proof -
  have u: "has_unbound_element S2_FindIndex L_delta" by code_simp
  have e: "\<not> IsDisabled P_filter" by code_simp
  have k: "cardinalities_respected S2_model
     (counts_after S2_model S2_FindIndex (\<lambda>i. True) S2_Value (S2_filter True) L_delta)"
    by code_simp
  show ?thesis
    using unbound_element_accept[OF u, where f = P_filter and pm = P_metadata
        and cb = P_callbacks and c = 0 and objective_min = 0 and objective_max = 100
        and delta_vehicle_cost = 12 and m = S2_model and IsVarSynced = "\<lambda>i. True"
        and Value = S2_Value and g = "S2_filter True"] u e k
    by blast
qed

text \<open>Scenario S2 of the specification: the delta gives node 4 a next.\<close>

definition S2_delta_unbound :: "IntVarElement list" where
  "S2_delta_unbound = [\<lparr>Var = 4, Min_e = 10, Max_e = 11\<rparr>]"

text \<open>The claim as stated fails for \<open>NodeDisjunctionFilter\<close>: the element of node 4 is not
  bound, with values 10 and 11 that both make the node active; node 3 is active too, which
  makes two active nodes in a disjunction of maximum cardinality 1, and the filter
  rejects.\<close>

theorem NodeDisjunction_unbound_reject_counterexample:
  "S2_FindIndex (Var (hd S2_delta_unbound)) = Some 4 \<and>
   \<not> Bound (hd S2_delta_unbound) \<and>
   has_unbound_element S2_FindIndex S2_delta_unbound \<and>
   \<not> fst (NodeDisjunction_Accept S2_model S2_FindIndex (\<lambda>i. True) S2_Value (S2_filter True)
            S2_delta_unbound 100)"
  by code_simp


section \<open>PickupDeliveryFilter\<close>

record PickupDeliveryPair =
  pickup_alternatives :: "nat list"
  delivery_alternatives :: "nat list"

datatype PickupAndDeliveryPolicy =
  PICKUP_AND_DELIVERY_NO_ORDER | PICKUP_AND_DELIVERY_LIFO | PICKUP_AND_DELIVERY_FIFO

text \<open>The filter with what it reads of its base class: \<open>Size\<close>, the number of next
  variables; \<open>GetNext\<close>, the next of a node in the neighbor, \<open>None\<close> for \<open>kUnassigned\<close>;
  \<open>IsVarSynced\<close>; and \<open>GetPath\<close>, the vehicle of a start. The entries of \<open>pair_firsts\<close> and
  \<open>pair_seconds\<close> are pair indices, or \<open>-1\<close> for \<open>kUnassigned\<close>.\<close>

record PickupDeliveryFilter =
  Size :: nat
  GetNext :: "nat \<Rightarrow> nat option"
  IsVarSynced :: "nat \<Rightarrow> bool"
  GetPath :: "nat \<Rightarrow> nat"
  pair_firsts :: "int list"
  pair_seconds :: "int list"
  pairs :: "PickupDeliveryPair list"
  vehicle_policies :: "PickupAndDeliveryPolicy list"

text \<open>The constructor fills \<open>pair_firsts\<close> and \<open>pair_seconds\<close> from the pairs.\<close>

definition index_pairs ::
  "(PickupDeliveryPair \<Rightarrow> nat list) \<Rightarrow> PickupDeliveryPair list \<Rightarrow> nat \<Rightarrow> int list" where
  "index_pairs alternatives prs next_domain_size =
     fold (\<lambda>i tbl. fold (\<lambda>node tbl. tbl[node := int i]) (alternatives (prs ! i)) tbl)
       [0..<length prs] (replicate next_domain_size (- 1))"

definition PickupDeliveryFilter_init ::
  "nat \<Rightarrow> nat \<Rightarrow> (nat \<Rightarrow> nat option) \<Rightarrow> (nat \<Rightarrow> bool) \<Rightarrow> (nat \<Rightarrow> nat) \<Rightarrow> PickupDeliveryPair list
     \<Rightarrow> PickupAndDeliveryPolicy list \<Rightarrow> PickupDeliveryFilter" where
  "PickupDeliveryFilter_init nexts_size next_domain_size get_next synced get_path prs policies =
     \<lparr>Size = nexts_size, GetNext = get_next, IsVarSynced = synced, GetPath = get_path,
      pair_firsts = index_pairs pickup_alternatives prs next_domain_size,
      pair_seconds = index_pairs delivery_alternatives prs next_domain_size,
      pairs = prs, vehicle_policies = policies\<rparr>"

text \<open>\<open>AcceptPathOrdered\<close>. The deque is a list whose last element is its back. The loop over
  the pickup alternatives of a delivery gives \<open>found_first\<close> and \<open>some_synced\<close>.\<close>

fun scan_firsts :: "PickupDeliveryFilter \<Rightarrow> nat list \<Rightarrow> nat list \<Rightarrow> bool \<Rightarrow> bool \<times> bool" where
  "scan_firsts f visited_deque [] some_synced = (False, some_synced)"
| "scan_firsts f visited_deque (first # rest) some_synced =
     (if visited_deque \<noteq> [] \<and> last visited_deque = first then (True, some_synced)
      else scan_firsts f visited_deque rest (some_synced \<or> IsVarSynced f first))"

text \<open>The body of the loop at a node, before \<open>GetNext\<close>: the new deque, or \<open>None\<close> when the
  filter returns false.\<close>

definition ordered_step :: "PickupDeliveryFilter \<Rightarrow> bool \<Rightarrow> nat \<Rightarrow> nat list \<Rightarrow> nat list option" where
  "ordered_step f lifo node visited_deque =
     (let d1 = (if pair_firsts f ! node \<noteq> - 1
                then (if lifo then visited_deque @ [node] else node # visited_deque)
                else visited_deque)
      in if pair_seconds f ! node \<noteq> - 1
         then
           (case scan_firsts f d1 (pickup_alternatives (pairs f ! nat (pair_seconds f ! node))) False of
              (found_first, some_synced) \<Rightarrow>
                if \<not> found_first \<and> some_synced then None
                else if d1 \<noteq> [] then Some (butlast d1) else Some d1)
         else Some d1)"

text \<open>The loop after the path: every pickup left in the deque is looked at from the back.\<close>

fun open_pairs_unsynced :: "PickupDeliveryFilter \<Rightarrow> nat list \<Rightarrow> bool" where
  "open_pairs_unsynced f [] = True"
| "open_pairs_unsynced f (back # rest) =
     (if list_ex (IsVarSynced f) (delivery_alternatives (pairs f ! nat (pair_firsts f ! back)))
      then False else open_pairs_unsynced f rest)"

function ordered_loop :: "PickupDeliveryFilter \<Rightarrow> bool \<Rightarrow> nat \<Rightarrow> nat \<Rightarrow> nat list \<Rightarrow> bool" where
  "ordered_loop f lifo node path_length visited_deque =
     (if node < Size f then
        if path_length > Size f then False
        else
          (case ordered_step f lifo node visited_deque of
             None \<Rightarrow> False
           | Some d \<Rightarrow>
               (case GetNext f node of
                  None \<Rightarrow> True
                | Some next \<Rightarrow> ordered_loop f lifo next (path_length + 1) d))
      else open_pairs_unsynced f (rev visited_deque))"
  by pat_completeness auto
termination
  by (relation "measure (\<lambda>(f, lifo, node, path_length, d). Size f + 1 - path_length)") auto

declare ordered_loop.simps [simp del]

definition AcceptPathOrdered :: "bool \<Rightarrow> PickupDeliveryFilter \<Rightarrow> nat \<Rightarrow> bool" where
  "AcceptPathOrdered lifo f path_start = ordered_loop f lifo path_start 1 []"

text \<open>\<open>AcceptPathDefault\<close>: \<open>visited\<close> lists the positions set in the bitset, in the order they
  were set.\<close>

definition default_step :: "PickupDeliveryFilter \<Rightarrow> nat \<Rightarrow> nat list \<Rightarrow> nat list option" where
  "default_step f node visited =
     (if pair_firsts f ! node \<noteq> - 1 \<and>
         list_ex (\<lambda>second. second \<in> set visited)
           (delivery_alternatives (pairs f ! nat (pair_firsts f ! node)))
      then None
      else if pair_seconds f ! node \<noteq> - 1 \<and>
         \<not> list_ex (\<lambda>first. first \<in> set visited)
             (pickup_alternatives (pairs f ! nat (pair_seconds f ! node))) \<and>
         list_ex (IsVarSynced f) (pickup_alternatives (pairs f ! nat (pair_seconds f ! node)))
      then None
      else Some (if node \<in> set visited then visited else visited @ [node]))"

definition default_final :: "PickupDeliveryFilter \<Rightarrow> nat list \<Rightarrow> bool" where
  "default_final f visited =
     list_all (\<lambda>node.
        \<not> (pair_firsts f ! node \<noteq> - 1 \<and>
           \<not> list_ex (\<lambda>second. second \<in> set visited)
               (delivery_alternatives (pairs f ! nat (pair_firsts f ! node))) \<and>
           list_ex (IsVarSynced f) (delivery_alternatives (pairs f ! nat (pair_firsts f ! node)))))
       visited"

function default_loop :: "PickupDeliveryFilter \<Rightarrow> nat \<Rightarrow> nat \<Rightarrow> nat list \<Rightarrow> bool" where
  "default_loop f node path_length visited =
     (if node < Size f then
        if path_length > Size f then False
        else
          (case default_step f node visited of
             None \<Rightarrow> False
           | Some v \<Rightarrow>
               (case GetNext f node of
                  None \<Rightarrow> True
                | Some next \<Rightarrow> default_loop f next (path_length + 1) v))
      else default_final f visited)"
  by pat_completeness auto
termination
  by (relation "measure (\<lambda>(f, node, path_length, v). Size f + 1 - path_length)") auto

declare default_loop.simps [simp del]

definition AcceptPathDefault :: "PickupDeliveryFilter \<Rightarrow> nat \<Rightarrow> bool" where
  "AcceptPathDefault f path_start = default_loop f path_start 1 []"

definition PickupDelivery_AcceptPath :: "PickupDeliveryFilter \<Rightarrow> nat \<Rightarrow> int \<Rightarrow> int \<Rightarrow> bool" where
  "PickupDelivery_AcceptPath f path_start chain_start chain_end =
     (case vehicle_policies f ! GetPath f path_start of
        PICKUP_AND_DELIVERY_NO_ORDER \<Rightarrow> AcceptPathDefault f path_start
      | PICKUP_AND_DELIVERY_LIFO \<Rightarrow> AcceptPathOrdered True f path_start
      | PICKUP_AND_DELIVERY_FIFO \<Rightarrow> AcceptPathOrdered False f path_start)"

subsection \<open>The stack discipline of the specification\<close>

text \<open>The path as the list of its nodes before the end: each is below \<open>Size\<close>, each but the
  last is followed by its next, and the next of the last is an end.\<close>

fun is_path :: "PickupDeliveryFilter \<Rightarrow> nat \<Rightarrow> nat list \<Rightarrow> bool" where
  "is_path f node [] = (\<not> node < Size f)"
| "is_path f node (n # ns) =
     (n = node \<and> node < Size f \<and>
      (case GetNext f node of None \<Rightarrow> False | Some next \<Rightarrow> is_path f next ns))"

text \<open>Scanning the nodes with a stack of open pickups, its top at the head: a pickup is
  pushed; a delivery must find one of the pickup alternatives of its pair on top, which is
  popped. \<open>None\<close> when a delivery does not.\<close>

fun lifo_scan :: "PickupDeliveryFilter \<Rightarrow> nat list \<Rightarrow> nat list \<Rightarrow> nat list option" where
  "lifo_scan f stack [] = Some stack"
| "lifo_scan f stack (n # ns) =
     (let pushed = (if pair_firsts f ! n \<noteq> - 1 then n # stack else stack)
      in if pair_seconds f ! n \<noteq> - 1
         then (case pushed of
                 [] \<Rightarrow> None
               | open_pickup # below \<Rightarrow>
                   if open_pickup \<in> set (pickup_alternatives (pairs f ! nat (pair_seconds f ! n)))
                   then lifo_scan f below ns else None)
         else lifo_scan f pushed ns)"

definition lifo_accepts :: "PickupDeliveryFilter \<Rightarrow> nat list \<Rightarrow> bool" where
  "lifo_accepts f ns =
     (case lifo_scan f [] ns of
        None \<Rightarrow> False
      | Some stack \<Rightarrow>
          list_all (\<lambda>p. \<not> list_ex (IsVarSynced f)
                          (delivery_alternatives (pairs f ! nat (pair_firsts f ! p)))) stack)"

definition S4_pairs :: "PickupDeliveryPair list" where
  "S4_pairs = [\<lparr>pickup_alternatives = [1], delivery_alternatives = [2]\<rparr>,
               \<lparr>pickup_alternatives = [3], delivery_alternatives = [4]\<rparr>]"

definition S4_filter :: "nat list \<Rightarrow> PickupDeliveryFilter" where
  "S4_filter nexts =
     PickupDeliveryFilter_init 5 6 (\<lambda>i. if i < 5 then Some (nexts ! i) else None) (\<lambda>i. True)
       (\<lambda>s. 0) S4_pairs [PICKUP_AND_DELIVERY_LIFO]"

text \<open>Every delivery among the nodes has a synced pickup alternative: so it is when all
  variables are synced and every pair has a pickup.\<close>

definition deliveries_have_synced_pickup :: "PickupDeliveryFilter \<Rightarrow> nat list \<Rightarrow> bool" where
  "deliveries_have_synced_pickup f ns =
     list_all (\<lambda>n. pair_seconds f ! n \<noteq> - 1 \<longrightarrow>
        list_ex (IsVarSynced f) (pickup_alternatives (pairs f ! nat (pair_seconds f ! n)))) ns"

subsection \<open>The filter against the stack discipline\<close>

lemma scan_firsts_found:
  "fst (scan_firsts f d alts s) = (d \<noteq> [] \<and> last d \<in> set alts)"
  by (induction alts arbitrary: s) auto

lemma scan_firsts_synced:
  "\<not> fst (scan_firsts f d alts s) \<Longrightarrow>
   snd (scan_firsts f d alts s) = (s \<or> (\<exists>a \<in> set alts. IsVarSynced f a))"
  by (induction alts arbitrary: s) (auto split: if_splits)

lemma open_pairs_unsynced_all:
  "open_pairs_unsynced f stack =
     list_all (\<lambda>p. \<not> list_ex (IsVarSynced f)
                     (delivery_alternatives (pairs f ! nat (pair_firsts f ! p)))) stack"
  by (induction stack) auto

text \<open>One step of the filter and one step of the scan, on a delivery whose pair has a
  synced pickup alternative.\<close>

lemma ordered_step_lifo:
  assumes "pair_seconds f ! n \<noteq> - 1 \<longrightarrow>
     (\<exists>a \<in> set (pickup_alternatives (pairs f ! nat (pair_seconds f ! n))). IsVarSynced f a)"
  shows "map_option rev (ordered_step f True n d) =
     (let pushed = (if pair_firsts f ! n \<noteq> - 1 then n # rev d else rev d)
      in if pair_seconds f ! n \<noteq> - 1
         then (case pushed of
                 [] \<Rightarrow> None
               | open_pickup # below \<Rightarrow>
                   if open_pickup \<in> set (pickup_alternatives (pairs f ! nat (pair_seconds f ! n)))
                   then Some below else None)
         else Some pushed)"
proof -
  define d1 where "d1 = (if pair_firsts f ! n \<noteq> - 1 then d @ [n] else d)"
  define alts where "alts = pickup_alternatives (pairs f ! nat (pair_seconds f ! n))"
  have pushed: "(if pair_firsts f ! n \<noteq> - 1 then n # rev d else rev d) = rev d1"
    by (simp add: d1_def)
  show ?thesis
  proof (cases "pair_seconds f ! n \<noteq> - 1")
    case False
    then show ?thesis by (simp add: ordered_step_def d1_def)
  next
    case True
    then have synced: "\<exists>a \<in> set alts. IsVarSynced f a" using assms by (simp add: alts_def)
    obtain found some_synced where sc: "scan_firsts f d1 alts False = (found, some_synced)"
      by (cases "scan_firsts f d1 alts False")
    have found: "found = (d1 \<noteq> [] \<and> last d1 \<in> set alts)"
      using scan_firsts_found[of f d1 alts False] sc by simp
    have ss: "\<not> found \<Longrightarrow> some_synced"
      using scan_firsts_synced[of f d1 alts False] sc synced by simp
    have "ordered_step f True n d =
        (case scan_firsts f d1 alts False of
           (found_first, some_synced) \<Rightarrow>
             if \<not> found_first \<and> some_synced then None
             else if d1 \<noteq> [] then Some (butlast d1) else Some d1)"
      unfolding ordered_step_def Let_def d1_def alts_def using True
      by (auto split: prod.splits)
    then have step: "ordered_step f True n d =
        (if \<not> found \<and> some_synced then None
         else if d1 \<noteq> [] then Some (butlast d1) else Some d1)"
      by (simp add: sc)
    show ?thesis
    proof (cases d1 rule: rev_cases)
      case Nil
      then show ?thesis
        unfolding pushed Let_def using True step found ss by (simp add: alts_def)
    next
      case (snoc xs x)
      then show ?thesis
        unfolding pushed Let_def using True step found ss by (auto simp: alts_def)
    qed
  qed
qed

lemma ordered_loop_lifo:
  assumes synced: "\<forall>n \<in> set ns. pair_seconds f ! n \<noteq> - 1 \<longrightarrow>
     (\<exists>a \<in> set (pickup_alternatives (pairs f ! nat (pair_seconds f ! n))). IsVarSynced f a)"
  shows "is_path f node ns \<Longrightarrow> path_length + length ns \<le> Size f + 1 \<Longrightarrow>
    ordered_loop f True node path_length d =
      (case lifo_scan f (rev d) ns of
         None \<Rightarrow> False
       | Some stack \<Rightarrow> open_pairs_unsynced f stack)"
  using synced
proof (induction ns arbitrary: node path_length d)
  case Nil
  then show ?case by (simp add: ordered_loop.simps)
next
  case (Cons n ns)
  from Cons.prems(1) obtain nxt where n: "n = node" "node < Size f" "GetNext f node = Some nxt"
    "is_path f nxt ns"
    by (auto split: option.splits)
  have pl: "\<not> path_length > Size f" using Cons.prems(2) by simp
  have here: "pair_seconds f ! n \<noteq> - 1 \<longrightarrow>
     (\<exists>a \<in> set (pickup_alternatives (pairs f ! nat (pair_seconds f ! n))). IsVarSynced f a)"
    using Cons.prems(3) by simp
  note step = ordered_step_lifo[OF here, of d]
  show ?case
  proof (cases "ordered_step f True n d")
    case None
    then have "lifo_scan f (rev d) (n # ns) = None"
      using step by (auto simp: Let_def split: if_splits list.splits)
    then show ?thesis
      using None n pl by (simp add: ordered_loop.simps[of f True node])
  next
    case (Some d')
    have IH: "ordered_loop f True nxt (path_length + 1) d' =
      (case lifo_scan f (rev d') ns of
         None \<Rightarrow> False
       | Some stack \<Rightarrow> open_pairs_unsynced f stack)"
      by (rule Cons.IH) (use n Cons.prems in auto)
    have "lifo_scan f (rev d) (n # ns) = lifo_scan f (rev d') ns"
      using step Some by (auto simp: Let_def split: if_splits list.splits)
    then show ?thesis
      using Some n pl IH by (simp add: ordered_loop.simps[of f True node])
  qed
qed

text \<open>C7. For a vehicle under the LIFO policy whose path in the neighbor is the node list
  \<open>ns\<close> (no longer than the number of next variables), when every delivery on the path has a
  synced pickup alternative (as when all variables are synced and no pair is without
  pickups), \<open>AcceptPath\<close> accepts if and only if the scan of the specification does: every
  delivery finds a pickup alternative of its pair on top of the stack, and no pair left on
  the stack has a synced delivery.\<close>

theorem PickupDelivery_lifo_accepts_iff:
  assumes "vehicle_policies f ! GetPath f path_start = PICKUP_AND_DELIVERY_LIFO"
    and "is_path f path_start ns"
    and "length ns \<le> Size f"
    and "deliveries_have_synced_pickup f ns"
  shows "PickupDelivery_AcceptPath f path_start chain_start chain_end = lifo_accepts f ns"
proof -
  have "\<forall>n \<in> set ns. pair_seconds f ! n \<noteq> - 1 \<longrightarrow>
     (\<exists>a \<in> set (pickup_alternatives (pairs f ! nat (pair_seconds f ! n))). IsVarSynced f a)"
    using assms(4) by (simp add: deliveries_have_synced_pickup_def list_all_iff list_ex_iff)
  then have "ordered_loop f True path_start 1 [] =
      (case lifo_scan f (rev []) ns of
         None \<Rightarrow> False
       | Some stack \<Rightarrow> open_pairs_unsynced f stack)"
    by (rule ordered_loop_lifo) (use assms in auto)
  then show ?thesis
    using assms(1)
    by (simp add: PickupDelivery_AcceptPath_def AcceptPathOrdered_def lifo_accepts_def
        open_pairs_unsynced_all split: option.split)
qed

lemma all_synced_deliveries:
  assumes "\<forall>n. IsVarSynced f n" and "\<forall>p \<in> set (pairs f). pickup_alternatives p \<noteq> []"
    and "\<forall>n \<in> set ns. pair_seconds f ! n \<noteq> - 1 \<longrightarrow> nat (pair_seconds f ! n) < length (pairs f)"
  shows "deliveries_have_synced_pickup f ns"
  unfolding deliveries_have_synced_pickup_def list_all_iff list_ex_iff
proof (intro ballI impI)
  fix n assume n: "n \<in> set ns" "pair_seconds f ! n \<noteq> - 1"
  then have "pairs f ! nat (pair_seconds f ! n) \<in> set (pairs f)" using assms(3) by simp
  then have "pickup_alternatives (pairs f ! nat (pair_seconds f ! n)) \<noteq> []"
    using assms(2) by blast
  then obtain a where "a \<in> set (pickup_alternatives (pairs f ! nat (pair_seconds f ! n)))"
    by (cases "pickup_alternatives (pairs f ! nat (pair_seconds f ! n))") auto
  then show "\<exists>a \<in> set (pickup_alternatives (pairs f ! nat (pair_seconds f ! n))). IsVarSynced f a"
    using assms(1) by blast
qed

text \<open>Scenario S4: pairs \<open>1 \<rightarrow> 2\<close> and \<open>3 \<rightarrow> 4\<close>, the start is node 0 and the end node 5.
  The path 0, 1, 3, 4, 2, 5 is accepted and the path 0, 1, 3, 2, 4, 5 is rejected.\<close>

theorem PickupDelivery_S4_witness:
  "vehicle_policies (S4_filter [1, 3, 5, 4, 2]) ! GetPath (S4_filter [1, 3, 5, 4, 2]) 0
     = PICKUP_AND_DELIVERY_LIFO \<and>
   is_path (S4_filter [1, 3, 5, 4, 2]) 0 [0, 1, 3, 4, 2] \<and>
   is_path (S4_filter [1, 3, 4, 2, 5]) 0 [0, 1, 3, 2, 4] \<and>
   deliveries_have_synced_pickup (S4_filter [1, 3, 5, 4, 2]) [0, 1, 3, 4, 2] \<and>
   deliveries_have_synced_pickup (S4_filter [1, 3, 4, 2, 5]) [0, 1, 3, 2, 4] \<and>
   lifo_accepts (S4_filter [1, 3, 5, 4, 2]) [0, 1, 3, 4, 2] \<and>
   PickupDelivery_AcceptPath (S4_filter [1, 3, 5, 4, 2]) 0 0 5 \<and>
   \<not> lifo_accepts (S4_filter [1, 3, 4, 2, 5]) [0, 1, 3, 2, 4] \<and>
   \<not> PickupDelivery_AcceptPath (S4_filter [1, 3, 4, 2, 5]) 0 0 5"
proof -
  have p1: "vehicle_policies (S4_filter [1, 3, 5, 4, 2]) ! GetPath (S4_filter [1, 3, 5, 4, 2]) 0
     = PICKUP_AND_DELIVERY_LIFO"
    and p2: "vehicle_policies (S4_filter [1, 3, 4, 2, 5]) ! GetPath (S4_filter [1, 3, 4, 2, 5]) 0
     = PICKUP_AND_DELIVERY_LIFO"
    by (simp_all add: S4_filter_def PickupDeliveryFilter_init_def)
  have i1: "is_path (S4_filter [1, 3, 5, 4, 2]) 0 [0, 1, 3, 4, 2]"
    and i2: "is_path (S4_filter [1, 3, 4, 2, 5]) 0 [0, 1, 3, 2, 4]"
    by code_simp+
  have l1: "length [0, 1, 3, 4, 2 :: nat] \<le> Size (S4_filter [1, 3, 5, 4, 2])"
    and l2: "length [0, 1, 3, 2, 4 :: nat] \<le> Size (S4_filter [1, 3, 4, 2, 5])"
    by (simp_all add: S4_filter_def PickupDeliveryFilter_init_def)
  have d1: "deliveries_have_synced_pickup (S4_filter [1, 3, 5, 4, 2]) [0, 1, 3, 4, 2]"
    and d2: "deliveries_have_synced_pickup (S4_filter [1, 3, 4, 2, 5]) [0, 1, 3, 2, 4]"
    by code_simp+
  have a1: "lifo_accepts (S4_filter [1, 3, 5, 4, 2]) [0, 1, 3, 4, 2]"
    and a2: "\<not> lifo_accepts (S4_filter [1, 3, 4, 2, 5]) [0, 1, 3, 2, 4]"
    by code_simp+
  show ?thesis
    using PickupDelivery_lifo_accepts_iff[OF p1 i1 l1 d1, of 0 5]
      PickupDelivery_lifo_accepts_iff[OF p2 i2 l2 d2, of 0 5] p1 i1 i2 d1 d2 a1 a2
    by blast
qed


section \<open>AdjustableKAryHeap\<close>

text \<open>The aggregate of the header's example and of the tests: a priority and an index, ordered
  by priority and then by index.\<close>

record Aggregate =
  priority :: int
  index :: nat

definition less_aggregate :: "Aggregate \<Rightarrow> Aggregate \<Rightarrow> bool" where
  "less_aggregate a b =
     (if priority b \<noteq> priority a then priority a < priority b else index a < index b)"

text \<open>The heap; the template parameters \<open>Arity\<close> and \<open>IsMaxHeap\<close> are fields that no
  operation changes. Positions are natural numbers, the entries of \<open>heap_positions\<close> are
  integers, \<open>kNonExistent\<close> being \<open>-1\<close>.\<close>

record AdjustableKAryHeap =
  Arity :: nat
  IsMaxHeap :: bool
  data :: "Aggregate list"
  heap_positions :: "int list"
  heap_size :: nat

definition kNonExistent :: int where
  "kNonExistent = - 1"

definition Clear :: "AdjustableKAryHeap \<Rightarrow> AdjustableKAryHeap" where
  "Clear h = h\<lparr>data := [], heap_positions := [], heap_size := 0\<rparr>"

definition IsEmpty_heap :: "AdjustableKAryHeap \<Rightarrow> bool" where
  "IsEmpty_heap h = (heap_size h = 0)"

definition HasPriority :: "AdjustableKAryHeap \<Rightarrow> nat \<Rightarrow> nat \<Rightarrow> bool" where
  "HasPriority h i j =
     (if IsMaxHeap h then less_aggregate (data h ! j) (data h ! i)
      else less_aggregate (data h ! i) (data h ! j))"

definition LeftChild :: "AdjustableKAryHeap \<Rightarrow> nat \<Rightarrow> nat" where
  "LeftChild h i = Arity h * i + 1"

definition RightChild :: "AdjustableKAryHeap \<Rightarrow> nat \<Rightarrow> nat" where
  "RightChild h i = Arity h * (i + 1)"

text \<open>\<open>Parent\<close>: the division of C++ truncates, so the parent of position 0 is 0, as the
  truncated subtraction gives here.\<close>

definition Parent :: "AdjustableKAryHeap \<Rightarrow> nat \<Rightarrow> nat" where
  "Parent h i = (i - 1) div Arity h"

text \<open>\<open>PerformSwap\<close>: the second swap reads the indices of the elements after the first.\<close>

definition PerformSwap :: "AdjustableKAryHeap \<Rightarrow> nat \<Rightarrow> nat \<Rightarrow> AdjustableKAryHeap" where
  "PerformSwap h i j =
     (let d = (data h)[i := data h ! j, j := data h ! i];
          a = index (d ! i);
          b = index (d ! j)
      in h\<lparr>data := d,
           heap_positions := (heap_positions h)[a := heap_positions h ! b, b := heap_positions h ! a]\<rparr>)"

definition GetHighestPriorityChild :: "AdjustableKAryHeap \<Rightarrow> nat \<Rightarrow> nat" where
  "GetHighestPriorityChild h i =
     (let right_bound = min (RightChild h i + 1) (heap_size h)
      in fold (\<lambda>c best. if HasPriority h c best then c else best) [LeftChild h i..<right_bound] i)"

lemma fold_child_range:
  "fold (\<lambda>c best. if P c best then c else best) cs i = i
   \<or> fold (\<lambda>c best. if P c best then c else best) cs i \<in> set cs"
proof (induction cs arbitrary: i)
  case Nil
  then show ?case by simp
next
  case (Cons c cs)
  show ?case
    using Cons.IH[of c] Cons.IH[of i] by auto
qed

lemma GetHighestPriorityChild_range:
  "GetHighestPriorityChild h i = i \<or>
   (LeftChild h i \<le> GetHighestPriorityChild h i \<and> GetHighestPriorityChild h i < heap_size h)"
  using fold_child_range[of "HasPriority h" "[LeftChild h i..<min (RightChild h i + 1) (heap_size h)]" i]
  by (auto simp: GetHighestPriorityChild_def Let_def)

lemma heap_size_PerformSwap [simp]: "heap_size (PerformSwap h i j) = heap_size h"
  by (simp add: PerformSwap_def Let_def)

lemma Arity_PerformSwap [simp]: "Arity (PerformSwap h i j) = Arity h"
  by (simp add: PerformSwap_def Let_def)

text \<open>\<open>SiftUp\<close> and \<open>SiftDown\<close>. The class does not compile for an arity below 2
  (\<open>static_assert(Arity >= 2)\<close>).\<close>

function SiftUp :: "AdjustableKAryHeap \<Rightarrow> nat \<Rightarrow> AdjustableKAryHeap" where
  "SiftUp h i =
     (if i > 0 \<and> HasPriority h i (Parent h i)
      then SiftUp (PerformSwap h i (Parent h i)) (Parent h i)
      else h)"
  by pat_completeness auto
termination
proof (relation "measure (\<lambda>(h, i). i)")
  show "wf (measure (\<lambda>(h, i). i))" by simp
next
  fix h :: AdjustableKAryHeap and i :: nat
  assume "0 < i \<and> HasPriority h i (Parent h i)"
  then have "0 < i" by simp
  moreover have "(i - 1) div Arity h \<le> i - 1" by (rule div_le_dividend)
  ultimately have "(i - 1) div Arity h < i" by arith
  then show "((PerformSwap h i (Parent h i), Parent h i), h, i) \<in> measure (\<lambda>(h, i). i)"
    by (simp add: Parent_def)
qed

function SiftDown :: "AdjustableKAryHeap \<Rightarrow> nat \<Rightarrow> AdjustableKAryHeap" where
  "SiftDown h i =
     (if Arity h < 2 then h
      else let highest_priority_child = GetHighestPriorityChild h i
           in if highest_priority_child = i then h
              else SiftDown (PerformSwap h i highest_priority_child) highest_priority_child)"
  by pat_completeness auto
termination
proof (relation "measure (\<lambda>(h, i). heap_size h - i)")
  show "wf (measure (\<lambda>(h, i). heap_size h - i))" by simp
next
  fix h :: AdjustableKAryHeap and i c :: nat
  assume a: "\<not> Arity h < 2" and c: "c = GetHighestPriorityChild h i" and ne: "c \<noteq> i"
  have "LeftChild h i \<le> c \<and> c < heap_size h"
    using GetHighestPriorityChild_range[of h i] c ne by auto
  moreover have "i < LeftChild h i"
  proof -
    have "2 \<le> Arity h" using a by simp
    then obtain k where "Arity h = 2 + k" using le_Suc_ex by blast
    then show ?thesis by (simp add: LeftChild_def)
  qed
  ultimately have "heap_size h - c < heap_size h - i" by arith
  then show "((PerformSwap h i c, c), h, i) \<in> measure (\<lambda>(h, i). heap_size h - i)"
    by simp
qed

declare SiftUp.simps [simp del] SiftDown.simps [simp del]

text \<open>\<open>BuildHeap\<close> sifts down from the parent of the position after the last to position 0.\<close>

definition BuildHeap :: "AdjustableKAryHeap \<Rightarrow> AdjustableKAryHeap" where
  "BuildHeap h = fold (\<lambda>i g. SiftDown g i) (rev [0..<Parent h (heap_size h) + 1]) h"

text \<open>The public operations. \<open>None\<close> is a failed \<open>CHECK\<close> or \<open>DCHECK\<close>, or an access the
  vectors do not have: the empty heap for \<open>Top\<close>, \<open>Pop\<close> and \<open>Update\<close>, an element that has
  no position for \<open>Update\<close>, an index outside \<open>heap_positions\<close> for \<open>Remove\<close> and \<open>Load\<close>.\<close>

definition Load :: "Aggregate list \<Rightarrow> nat \<Rightarrow> AdjustableKAryHeap \<Rightarrow> AdjustableKAryHeap option" where
  "Load elements universe_size h =
     (let positions = take universe_size (heap_positions h)
            @ replicate (universe_size - length (heap_positions h)) kNonExistent
      in if list_all (\<lambda>e. index e < universe_size) elements
         then Some (BuildHeap
           (h\<lparr>data := elements, heap_size := length elements,
              heap_positions :=
                fold (\<lambda>i ps. ps[index (elements ! i) := int i]) [0..<length elements] positions\<rparr>))
         else None)"

definition Top :: "AdjustableKAryHeap \<Rightarrow> Aggregate option" where
  "Top h = (if IsEmpty_heap h then None else Some (data h ! 0))"

definition RemoveAtHeapPosition :: "nat \<Rightarrow> AdjustableKAryHeap \<Rightarrow> bool \<times> AdjustableKAryHeap" where
  "RemoveAtHeapPosition heap_index h =
     (if heap_index \<ge> heap_size h then (False, h)
      else
        let h1 = PerformSwap h heap_index (heap_size h - 1);
            h2 = h1\<lparr>heap_size := heap_size h1 - 1\<rparr>
        in if HasPriority h2 heap_index (Parent h2 heap_index)
           then (True, SiftUp h2 heap_index)
           else (True, SiftDown h2 heap_index))"

definition Pop :: "AdjustableKAryHeap \<Rightarrow> (Aggregate \<times> AdjustableKAryHeap) option" where
  "Pop h =
     (case Top h of
        None \<Rightarrow> None
      | Some top_element \<Rightarrow>
          (case RemoveAtHeapPosition 0 h of
             (True, h') \<Rightarrow> Some (top_element, h')
           | (False, h') \<Rightarrow> None))"

definition Remove :: "nat \<Rightarrow> AdjustableKAryHeap \<Rightarrow> (bool \<times> AdjustableKAryHeap) option" where
  "Remove i h =
     (if IsEmpty_heap h then Some (False, h)
      else if i \<ge> length (heap_positions h) then None
      else
        let heap_position = heap_positions h ! i
        in if heap_position \<noteq> kNonExistent
           then (if heap_position < 0 then None
                 else Some (RemoveAtHeapPosition (nat heap_position) h))
           else Some (False, h))"

definition Update :: "Aggregate \<Rightarrow> AdjustableKAryHeap \<Rightarrow> AdjustableKAryHeap option" where
  "Update element h =
     (if IsEmpty_heap h \<or> index element \<ge> length (heap_positions h) then None
      else
        let heap_position = heap_positions h ! index element
        in if heap_position < 0 \<or> heap_position \<ge> int (length (heap_positions h))
              \<or> heap_position \<ge> int (length (data h))
           then None
           else
             let p = nat heap_position;
                 h1 = h\<lparr>data := (data h)[p := element]\<rparr>
             in if HasPriority h1 p (Parent h1 p) then Some (SiftUp h1 p)
                else Some (SiftDown h1 p))"

definition Insert :: "Aggregate \<Rightarrow> AdjustableKAryHeap \<Rightarrow> AdjustableKAryHeap option" where
  "Insert element h =
     (let h1 = (if index element \<ge> length (heap_positions h)
                then h\<lparr>heap_positions := heap_positions h
                         @ replicate (index element + 1 - length (heap_positions h)) kNonExistent\<rparr>
                else h);
          h2 = (if heap_positions h1 ! index element = kNonExistent
                then h1\<lparr>heap_positions := (heap_positions h1)[index element := int (length (data h1))],
                        data := data h1 @ [element],
                        heap_size := heap_size h1 + 1\<rparr>
                else h1)
      in Update element h2)"

text \<open>\<open>CheckHeapProperty\<close>: its loop looks at the positions from the last down to \<open>Arity\<close>.\<close>

definition CheckHeapProperty :: "AdjustableKAryHeap \<Rightarrow> bool" where
  "CheckHeapProperty h =
     (list_all (\<lambda>i. HasPriority h (Parent h i) i) [Arity h..<heap_size h]
      \<and> heap_size h \<le> length (heap_positions h) \<and> heap_size h \<le> length (data h))"

text \<open>The invariant of the claim: every position of the heap but the first holds an element
  its parent has priority over, and \<open>heap_positions\<close> gives the position of every element of
  the heap.\<close>

definition heap_invariant :: "AdjustableKAryHeap \<Rightarrow> bool" where
  "heap_invariant h =
     (list_all (\<lambda>i. HasPriority h (Parent h i) i) [1..<heap_size h] \<and>
      list_all (\<lambda>i. index (data h ! i) < length (heap_positions h)
                  \<and> heap_positions h ! index (data h ! i) = int i) [0..<heap_size h])"

definition empty_heap :: "nat \<Rightarrow> bool \<Rightarrow> AdjustableKAryHeap" where
  "empty_heap a m = \<lparr>Arity = a, IsMaxHeap = m, data = [], heap_positions = [], heap_size = 0\<rparr>"

definition H_loaded :: "AdjustableKAryHeap option" where
  "H_loaded = Load [\<lparr>priority = 1, index = 0\<rparr>, \<lparr>priority = 5, index = 1\<rparr>,
     \<lparr>priority = 2, index = 2\<rparr>] 3 (empty_heap 2 False)"

definition H_popped :: "AdjustableKAryHeap option" where
  "H_popped = Option.bind H_loaded (\<lambda>h. map_option snd (Pop h))"

definition H_inserted :: "AdjustableKAryHeap option" where
  "H_inserted = Option.bind H_popped (Insert \<lparr>priority = 7, index = 3\<rparr>)"

text \<open>C10. A min-heap of arity 2 loaded with three elements, then \<open>Pop\<close>, then \<open>Insert\<close> of
  an element with a new index. \<open>Pop\<close> leaves the removed element in \<open>data\<close> behind the heap;
  \<open>Insert\<close> puts the new element at the end of \<open>data\<close>, not at the end of the heap, and
  increments \<open>heap_size\<close>: the removed element is back in the heap under a parent with less
  priority, the new element is outside the heap, and \<open>CheckHeapProperty\<close> fails.\<close>

theorem heap_invariant_fails_after_Pop_Insert:
  "map_option heap_invariant H_loaded = Some True \<and>
   map_option heap_invariant H_popped = Some True \<and>
   map_option heap_size H_popped = Some 2 \<and>
   map_option heap_size H_inserted = Some 3 \<and>
   map_option data H_inserted =
     Some [\<lparr>priority = 2, index = 2\<rparr>, \<lparr>priority = 5, index = 1\<rparr>,
           \<lparr>priority = 1, index = 0\<rparr>, \<lparr>priority = 7, index = 3\<rparr>] \<and>
   map_option heap_positions H_inserted = Some [2, 1, 0, 3] \<and>
   map_option heap_invariant H_inserted = Some False \<and>
   map_option CheckHeapProperty H_inserted = Some False"
  by code_simp


end
